theory Spec2Isabelle
  imports Main "HOL-Library.Word" "HOL-Library.Multiset"
begin

section \<open>Strings of UTF-16 code units\<close>

text \<open>
  A JavaScript string is a sequence of 16-bit code units; \<open>length\<close>, indexing
  (\<open>s[0]\<close>), \<open>endsWith\<close>, \<open>===\<close> and a regular expression without the \<open>u\<close> flag
  all work on code units. A character outside the Basic Multilingual Plane is two
  code units (a surrogate pair).
\<close>

type_synonym code_unit = "16 word"
type_synonym jsstring = "code_unit list"

text \<open>An ASCII literal as a JavaScript string: \<open>js ''Card''\<close> is \<open>"Card"\<close>.\<close>

definition js :: "string \<Rightarrow> jsstring" where
  "js s = map of_char s"

text \<open>
  \<open>String.prototype.trim\<close> removes the code units of the ECMAScript productions
  WhiteSpace and LineTerminator from both ends.
\<close>

definition isWhiteSpace :: "code_unit \<Rightarrow> bool" where
  "isWhiteSpace c \<longleftrightarrow>
     c = 0x0009 \<or> c = 0x000A \<or> c = 0x000B \<or> c = 0x000C \<or> c = 0x000D \<or> c = 0x0020 \<or>
     c = 0x00A0 \<or> c = 0x1680 \<or> (0x2000 \<le> c \<and> c \<le> 0x200A) \<or> c = 0x2028 \<or>
     c = 0x2029 \<or> c = 0x202F \<or> c = 0x205F \<or> c = 0x3000 \<or> c = 0xFEFF"

definition trim :: "jsstring \<Rightarrow> jsstring" where
  "trim s = rev (dropWhile isWhiteSpace (rev (dropWhile isWhiteSpace s)))"

text \<open>\<open>s.endsWith(t)\<close>: the last \<open>length t\<close> code units of \<open>s\<close> are \<open>t\<close>.\<close>

definition endsWith :: "jsstring \<Rightarrow> jsstring \<Rightarrow> bool" where
  "endsWith s t \<longleftrightarrow> length t \<le> length s \<and> drop (length s - length t) s = t"

section \<open>Sorting with a comparison function\<close>

text \<open>
  \<open>a.localeCompare(b)\<close> is supplied by the host's collation; it is a parameter
  \<open>cmp\<close> of the model, negative when \<open>a\<close> sorts before \<open>b\<close>, zero when they
  collate equal, positive otherwise. \<open>Array.prototype.sort\<close> is a stable sort; for a
  consistent comparison function its result is the one of the stable insertion sort
  below. \<open>consistent\<close> is the notion of ECMAScript: the comparison function is
  reflexive, its equality is symmetric and transitive, and so are "less" and "greater".
\<close>

type_synonym collation = "jsstring \<Rightarrow> jsstring \<Rightarrow> int"

definition consistent :: "collation \<Rightarrow> bool" where
  "consistent cmp \<longleftrightarrow>
     (\<forall>a. cmp a a = 0) \<and>
     (\<forall>a b. cmp a b = 0 \<longrightarrow> cmp b a = 0) \<and>
     (\<forall>a b c. cmp a b = 0 \<longrightarrow> cmp b c = 0 \<longrightarrow> cmp a c = 0) \<and>
     (\<forall>a b c. cmp a b < 0 \<longrightarrow> cmp b c < 0 \<longrightarrow> cmp a c < 0) \<and>
     (\<forall>a b c. cmp a b > 0 \<longrightarrow> cmp b c > 0 \<longrightarrow> cmp a c > 0)"

fun insertBy :: "collation \<Rightarrow> jsstring \<Rightarrow> jsstring list \<Rightarrow> jsstring list" where
  "insertBy cmp x [] = [x]"
| "insertBy cmp x (y # ys) =
     (if cmp x y \<le> 0 then x # y # ys else y # insertBy cmp x ys)"

definition array_sort :: "collation \<Rightarrow> jsstring list \<Rightarrow> jsstring list" where
  "array_sort cmp xs = foldr (insertBy cmp) xs []"

text \<open>
  The comparison of two strings by their code units, as the operator \<open><\<close> of
  JavaScript compares them: a concrete consistent comparison function.
\<close>

fun codeUnitCompare :: collation where
  "codeUnitCompare [] [] = 0"
| "codeUnitCompare [] (b # bs) = -1"
| "codeUnitCompare (a # as) [] = 1"
| "codeUnitCompare (a # as) (b # bs) =
     (if a < b then -1 else if b < a then 1 else codeUnitCompare as bs)"

section \<open>Classification\<close>

text \<open>\<open>/^[-]+$/.test(name.trim())\<close>\<close>

definition isDivider :: "jsstring \<Rightarrow> bool" where
  "isDivider name \<longleftrightarrow> trim name \<noteq> [] \<and> list_all (\<lambda>c. c = 0x002D) (trim name)"

text \<open>
  \<open>emojiRegex.test(s)\<close>: the regular expression is an alternation of U+00A9, U+00AE,
  one code unit in U+2000..U+3300, and U+D83C, U+D83D or U+D83E followed by one code
  unit in U+D000..U+DFFF. It has no anchor, so the test holds when
  some position of \<open>s\<close> starts a match of one of the six alternatives. The last
  three alternatives are two code units long.
\<close>

fun emojiRegex_test :: "jsstring \<Rightarrow> bool" where
  "emojiRegex_test [] = False"
| "emojiRegex_test (c # cs) =
     (c = 0x00A9 \<or> c = 0x00AE \<or> (0x2000 \<le> c \<and> c \<le> 0x3300) \<or>
      ((c = 0xD83C \<or> c = 0xD83D \<or> c = 0xD83E) \<and>
         (case cs of [] \<Rightarrow> False | d # _ \<Rightarrow> 0xD000 \<le> d \<and> d \<le> 0xDFFF)) \<or>
      emojiRegex_test cs)"

definition hasUpperCase :: "jsstring \<Rightarrow> bool" where
  "hasUpperCase s = list_ex (\<lambda>c. 0x0041 \<le> c \<and> c \<le> 0x005A) s"

definition hasLowerCase :: "jsstring \<Rightarrow> bool" where
  "hasLowerCase s = list_ex (\<lambda>c. 0x0061 \<le> c \<and> c \<le> 0x007A) s"

text \<open>
  \<open>trimmed[0]\<close> is the string of the first code unit of \<open>trimmed\<close>, here
  \<open>take 1 trimmed\<close> (the string is not empty where it is read). The variables
  \<open>firstChar\<close> and \<open>isEmoji\<close> of the source are never read.
\<close>

definition isStickyHeader :: "jsstring \<Rightarrow> bool" where
  "isStickyHeader name =
     (let trimmed = trim name in
      if length trimmed = 0 then False
      else if emojiRegex_test (take 1 trimmed) then True
      else if hasUpperCase trimmed \<and> \<not> hasLowerCase trimmed then True
      else False)"

definition isSequenceBreaker :: "jsstring \<Rightarrow> bool" where
  "isSequenceBreaker name \<longleftrightarrow> isDivider name \<or> isStickyHeader name"

section \<open>Grouping and ordering of the regular items of a section\<close>

text \<open>\<open>new Set(items)\<close>, in its iteration order: the first occurrences.\<close>

definition newSet :: "jsstring list \<Rightarrow> jsstring list" where
  "newSet items = fold (\<lambda>x acc. if x \<in> set acc then acc else acc @ [x]) items []"

text \<open>
  The inner loop over \<open>potentialParents\<close>. \<open>bestParent\<close> is \<open>string | null\<close>;
  \<open>!bestParent\<close> holds for \<open>null\<close> and for the empty string.
\<close>

definition replaces :: "jsstring \<Rightarrow> jsstring option \<Rightarrow> bool" where
  "replaces p bestParent =
     (case bestParent of None \<Rightarrow> True | Some b \<Rightarrow> b = [] \<or> length p < length b)"

fun bestParentLoop :: "jsstring \<Rightarrow> jsstring list \<Rightarrow> jsstring option \<Rightarrow> jsstring option" where
  "bestParentLoop item [] bestParent = bestParent"
| "bestParentLoop item (p # ps) bestParent =
     (if item = p then bestParentLoop item ps bestParent
      else if endsWith item (0x0020 # p) then
        (if replaces p bestParent then bestParentLoop item ps (Some p)
         else bestParentLoop item ps bestParent)
      else bestParentLoop item ps bestParent)"

record grouping =
  relationships :: "jsstring \<rightharpoonup> jsstring"
  parents :: "jsstring set"

text \<open>One round of the first loop over \<open>items\<close>; \<open>if (bestParent)\<close> fails for the empty string.\<close>

definition assignParent :: "jsstring list \<Rightarrow> jsstring \<Rightarrow> grouping \<Rightarrow> grouping" where
  "assignParent potentialParents item g =
     (case bestParentLoop item potentialParents None of
        None \<Rightarrow> g
      | Some bestParent \<Rightarrow>
          if bestParent = [] then g
          else g\<lparr>relationships := (relationships g)(item \<mapsto> bestParent),
                 parents := insert bestParent (parents g)\<rparr>)"

record buckets =
  roots :: "jsstring list"
  parentMap :: "jsstring \<rightharpoonup> jsstring list"
  orphans :: "jsstring list"

text \<open>One round of the second loop over \<open>items\<close>.\<close>

definition categorize :: "grouping \<Rightarrow> jsstring \<Rightarrow> buckets \<Rightarrow> buckets" where
  "categorize g item b =
     (if item \<in> parents g then
        (if item \<notin> set (roots b) then b\<lparr>roots := roots b @ [item]\<rparr> else b)
      else case relationships g item of
        Some p \<Rightarrow>
          b\<lparr>parentMap := (parentMap b)(p \<mapsto>
               (case parentMap b p of None \<Rightarrow> [] | Some cs \<Rightarrow> cs) @ [item])\<rparr>
      | None \<Rightarrow> b\<lparr>orphans := orphans b @ [item]\<rparr>)"

text \<open>One round of the last loop: the item, then its sorted children when it is a parent.\<close>

definition emit :: "collation \<Rightarrow> grouping \<Rightarrow> buckets \<Rightarrow> jsstring \<Rightarrow> jsstring list" where
  "emit cmp g b item =
     item # (if item \<in> parents g
             then array_sort cmp (case parentMap b item of None \<Rightarrow> [] | Some cs \<Rightarrow> cs)
             else [])"

text \<open>The first loop of \<open>smartSortRegular\<close>: \<open>relationships\<close> and \<open>parents\<close>.\<close>

definition groupItems :: "jsstring list \<Rightarrow> grouping" where
  "groupItems items =
     fold (assignParent (newSet items)) items \<lparr>relationships = Map.empty, parents = {}\<rparr>"

text \<open>The second loop: \<open>roots\<close>, \<open>parentMap\<close> and \<open>orphans\<close>.\<close>

definition bucketItems :: "grouping \<Rightarrow> jsstring list \<Rightarrow> buckets" where
  "bucketItems g items =
     fold (categorize g) items \<lparr>roots = [], parentMap = Map.empty, orphans = []\<rparr>"

definition smartSortRegular :: "collation \<Rightarrow> jsstring list \<Rightarrow> jsstring list" where
  "smartSortRegular cmp items =
     (let g = groupItems items;
          b = bucketItems g items;
          allTopLevel = array_sort cmp (array_sort cmp (roots b) @ array_sort cmp (orphans b))
      in concat (map (emit cmp g b) allTopLevel))"

section \<open>Sections\<close>

definition regularItems :: "jsstring list \<Rightarrow> jsstring list" where
  "regularItems items = filter (\<lambda>item. \<not> isStickyHeader item) items"

definition sortSection :: "collation \<Rightarrow> jsstring list \<Rightarrow> jsstring list" where
  "sortSection cmp items =
     (let sticky = filter isStickyHeader items;
          regular = regularItems items
      in sticky @ smartSortRegular cmp regular)"

record sorter =
  result :: "jsstring list"
  currentSection :: "jsstring list"

definition flushSection :: "collation \<Rightarrow> sorter \<Rightarrow> sorter" where
  "flushSection cmp s =
     (if length (currentSection s) > 0
      then \<lparr>result = result s @ sortSection cmp (currentSection s), currentSection = []\<rparr>
      else s)"

text \<open>One round of the loop over \<open>names\<close>: both branches push the name, a breaker flushes first.\<close>

definition step :: "collation \<Rightarrow> jsstring \<Rightarrow> sorter \<Rightarrow> sorter" where
  "step cmp name s =
     (if isSequenceBreaker name
      then (let s' = flushSection cmp s in s'\<lparr>currentSection := currentSection s' @ [name]\<rparr>)
      else s\<lparr>currentSection := currentSection s @ [name]\<rparr>)"

definition sortPagesSmartly :: "collation \<Rightarrow> jsstring list \<Rightarrow> jsstring list" where
  "sortPagesSmartly cmp names =
     result (flushSection cmp (fold (step cmp) names \<lparr>result = [], currentSection = []\<rparr>))"

text \<open>
  The sections of a run: the arguments of the calls of \<open>sortSection\<close>, in the order
  of the calls. The loop is the one of \<open>sortPagesSmartly\<close> with the flushed section
  kept instead of sorted.
\<close>

fun sectionsLoop :: "jsstring list \<Rightarrow> jsstring list \<Rightarrow> jsstring list list" where
  "sectionsLoop [] cur = (if length cur > 0 then [cur] else [])"
| "sectionsLoop (name # names) cur =
     (if isSequenceBreaker name
      then (if length cur > 0 then [cur] else []) @ sectionsLoop names [name]
      else sectionsLoop names (cur @ [name]))"

definition sections :: "jsstring list \<Rightarrow> jsstring list list" where
  "sections names = sectionsLoop names []"

section \<open>Notions for the proofs\<close>

text \<open>
  The definitions of this section name parts and results of the functions above; the
  lemmas that follow relate each of them to the function it is taken from.
\<close>

text \<open>
  The two tests of the inner loop that let \<open>p\<close> be compared with \<open>bestParent\<close>, and
  the value of \<open>bestParent\<close> that passes the test \<open>if (bestParent)\<close> after the loop.
\<close>

definition candidate :: "jsstring \<Rightarrow> jsstring \<Rightarrow> bool" where
  "candidate item p \<longleftrightarrow> item \<noteq> p \<and> endsWith item (0x0020 # p)"

definition boundParent :: "jsstring list \<Rightarrow> jsstring \<Rightarrow> jsstring option" where
  "boundParent potentialParents item =
     (case bestParentLoop item potentialParents None of
        None \<Rightarrow> None
      | Some b \<Rightarrow> if b = [] then None else Some b)"

text \<open>The value of \<open>parentMap.get(p) || []\<close>: the children pushed for \<open>p\<close> so far.\<close>

definition childrenOf :: "buckets \<Rightarrow> jsstring \<Rightarrow> jsstring list" where
  "childrenOf b p = (case parentMap b p of None \<Rightarrow> [] | Some cs \<Rightarrow> cs)"

text \<open>The list \<open>allTopLevel\<close> of \<open>smartSortRegular\<close>, after it is sorted.\<close>

definition allTopLevel :: "collation \<Rightarrow> jsstring list \<Rightarrow> jsstring list" where
  "allTopLevel cmp items =
     (let b = bucketItems (groupItems items) items
      in array_sort cmp (array_sort cmp (roots b) @ array_sort cmp (orphans b)))"

text \<open>
  A list in the order of \<open>cmp\<close>; and the order of a list in which, moreover, no item
  outside \<open>P\<close> stands before an item of \<open>P\<close> that collates equal to it.
\<close>

definition ordered :: "collation \<Rightarrow> jsstring list \<Rightarrow> bool" where
  "ordered cmp xs = sorted_wrt (\<lambda>a b. cmp a b \<le> 0) xs"

definition before :: "collation \<Rightarrow> (jsstring \<Rightarrow> bool) \<Rightarrow> jsstring \<Rightarrow> jsstring \<Rightarrow> bool" where
  "before cmp P a b \<longleftrightarrow> cmp a b \<le> 0 \<and> (\<not> P a \<and> P b \<longrightarrow> 0 < cmp b a)"

text \<open>
  The output of \<open>smartSortRegular\<close> by the set of parents and the map of relationships
  that its first loop finds: the sorted roots and orphans, each root followed by its
  sorted children.
\<close>

definition arrange ::
  "collation \<Rightarrow> jsstring set \<Rightarrow> (jsstring \<rightharpoonup> jsstring) \<Rightarrow> jsstring list \<Rightarrow> jsstring list" where
  "arrange cmp P rel items =
     concat (map (\<lambda>t. t # (if t \<in> P
                            then array_sort cmp (filter (\<lambda>x. x \<notin> P \<and> rel x = Some t) items)
                            else []))
       (array_sort cmp
          (array_sort cmp (newSet (filter (\<lambda>x. x \<in> P) items)) @
           array_sort cmp (filter (\<lambda>x. x \<notin> P \<and> rel x = None) items))))"

text \<open>
  A section that a breaker starts, and a list of sections as the loop of
  \<open>sortPagesSmartly\<close> flushes them: no section is empty, a breaker is the first element
  of a section, and only the first section may start without one.
\<close>

definition headed :: "jsstring list \<Rightarrow> bool" where
  "headed s \<longleftrightarrow> s \<noteq> [] \<and> isSequenceBreaker (hd s) \<and> (\<forall>x\<in>set (tl s). \<not> isSequenceBreaker x)"

definition flushed :: "jsstring list list \<Rightarrow> bool" where
  "flushed ss \<longleftrightarrow>
     (case ss of
        [] \<Rightarrow> True
      | s # hs \<Rightarrow> s \<noteq> [] \<and> (\<forall>x\<in>set (tl s). \<not> isSequenceBreaker x) \<and> (\<forall>h\<in>set hs. headed h))"

lemmas model_defs =
  sortPagesSmartly_def step_def flushSection_def sortSection_def regularItems_def
  smartSortRegular_def groupItems_def bucketItems_def assignParent_def categorize_def
  emit_def array_sort_def newSet_def replaces_def endsWith_def isSequenceBreaker_def
  isStickyHeader_def isDivider_def hasUpperCase_def hasLowerCase_def trim_def
  isWhiteSpace_def js_def sections_def Let_def

section \<open>The comparison function\<close>

lemma consistent_flip:
  assumes "consistent cmp" and "cmp a b < 0"
  shows "cmp b a > 0"
proof (rule ccontr)
  assume "\<not> cmp b a > 0"
  then consider "cmp b a < 0" | "cmp b a = 0" by linarith
  then show False
  proof cases
    case 1
    with assms have "cmp a a < 0" unfolding consistent_def by blast
    moreover from assms(1) have "cmp a a = 0" unfolding consistent_def by blast
    ultimately show False by simp
  next
    case 2
    with assms(1) have "cmp a b = 0" unfolding consistent_def by blast
    with assms(2) show False by simp
  qed
qed

lemma codeUnitCompare_refl: "codeUnitCompare a a = 0"
  by (induction a) auto

lemma codeUnitCompare_eq: "codeUnitCompare a b = 0 \<longleftrightarrow> a = b"
  by (induction a b rule: codeUnitCompare.induct) auto

lemma codeUnitCompare_less_trans:
  "codeUnitCompare a b < 0 \<Longrightarrow> codeUnitCompare b c < 0 \<Longrightarrow> codeUnitCompare a c < 0"
proof (induction a b arbitrary: c rule: codeUnitCompare.induct)
  case 1
  then show ?case by simp
next
  case (2 b bs)
  then show ?case by (cases c) auto
next
  case (3 a as)
  then show ?case by simp
next
  case (4 a as b bs)
  then show ?case by (cases c) (auto split: if_splits)
qed

lemma codeUnitCompare_greater_trans:
  "codeUnitCompare a b > 0 \<Longrightarrow> codeUnitCompare b c > 0 \<Longrightarrow> codeUnitCompare a c > 0"
proof (induction a b arbitrary: c rule: codeUnitCompare.induct)
  case 1
  then show ?case by simp
next
  case (2 b bs)
  then show ?case by simp
next
  case (3 a as)
  then show ?case by (cases c) auto
next
  case (4 a as b bs)
  then show ?case by (cases c) (auto split: if_splits)
qed

lemma consistent_codeUnitCompare: "consistent codeUnitCompare"
proof -
  have "\<forall>a b c. codeUnitCompare a b < 0 \<longrightarrow> codeUnitCompare b c < 0
          \<longrightarrow> codeUnitCompare a c < 0"
    by (blast intro: codeUnitCompare_less_trans)
  moreover have "\<forall>a b c. codeUnitCompare a b > 0 \<longrightarrow> codeUnitCompare b c > 0
          \<longrightarrow> codeUnitCompare a c > 0"
    by (blast intro: codeUnitCompare_greater_trans)
  ultimately show ?thesis
    unfolding consistent_def codeUnitCompare_eq by simp
qed

section \<open>The run as a list of sections\<close>

lemma sortPagesSmartly_sections_aux:
  "result (flushSection cmp (fold (step cmp) names s)) =
     result s @ concat (map (sortSection cmp) (sectionsLoop names (currentSection s)))"
proof (induction names arbitrary: s)
  case Nil
  show ?case by (simp add: flushSection_def)
next
  case (Cons name names)
  have "result (flushSection cmp (fold (step cmp) (name # names) s)) =
          result (step cmp name s) @
          concat (map (sortSection cmp) (sectionsLoop names (currentSection (step cmp name s))))"
    using Cons.IH [of "step cmp name s"] by simp
  also have "\<dots> = result s @
          concat (map (sortSection cmp) (sectionsLoop (name # names) (currentSection s)))"
    by (simp add: step_def flushSection_def Let_def)
  finally show ?case .
qed

lemma sortPagesSmartly_sections:
  "sortPagesSmartly cmp names = concat (map (sortSection cmp) (sections names))"
  by (simp add: sortPagesSmartly_def sections_def sortPagesSmartly_sections_aux)

section \<open>The set of potential parents\<close>

lemma newSet_fold_set:
  "set (fold (\<lambda>x acc. if x \<in> set acc then acc else acc @ [x]) xs acc) = set acc \<union> set xs"
  by (induction xs arbitrary: acc) auto

lemma newSet_fold_distinct:
  "distinct acc \<Longrightarrow> distinct (fold (\<lambda>x acc. if x \<in> set acc then acc else acc @ [x]) xs acc)"
  by (induction xs arbitrary: acc) auto

lemma set_newSet [simp]: "set (newSet xs) = set xs"
  by (simp add: newSet_def newSet_fold_set)

lemma distinct_newSet [simp]: "distinct (newSet xs)"
  by (simp add: newSet_def newSet_fold_distinct)

lemma mset_newSet: "mset (newSet xs) = mset_set (set xs)"
  by (metis distinct_newSet set_newSet mset_set_set)

lemma newSet_distinct_fold:
  "distinct (acc @ xs) \<Longrightarrow> fold (\<lambda>x acc. if x \<in> set acc then acc else acc @ [x]) xs acc = acc @ xs"
  by (induction xs arbitrary: acc) auto

lemma newSet_distinct: "distinct xs \<Longrightarrow> newSet xs = xs"
  using newSet_distinct_fold [of "[]" xs] by (simp add: newSet_def)

section \<open>The bound parent of an item\<close>


lemma bestParentLoop_from:
  "bestParentLoop item ps best = Some b \<Longrightarrow> best = Some b \<or> (b \<in> set ps \<and> candidate item b)"
  by (induction ps arbitrary: best) (auto simp: candidate_def split: if_splits)

lemma candidate_same_length:
  assumes "candidate item p" and "candidate item q" and "length p = length q"
  shows "p = q"
proof -
  from assms(1) have "drop (length item - Suc (length p)) item = 0x0020 # p"
    by (simp add: candidate_def endsWith_def)
  moreover from assms(2) have "drop (length item - Suc (length q)) item = 0x0020 # q"
    by (simp add: candidate_def endsWith_def)
  ultimately have "0x0020 # p = 0x0020 # q"
    unfolding assms(3) by (rule trans [OF sym])
  then show ?thesis by (simp only: list.inject)
qed

lemma bestParentLoop_shortest:
  assumes "[] \<notin> set ps"
    and "best = None \<or> (\<exists>b0. best = Some b0 \<and> b0 \<noteq> [] \<and> candidate item b0)"
  shows "case bestParentLoop item ps best of
           None \<Rightarrow> best = None \<and> (\<forall>q\<in>set ps. \<not> candidate item q)
         | Some b \<Rightarrow> b \<noteq> [] \<and> candidate item b \<and> (best = Some b \<or> b \<in> set ps) \<and>
                     (\<forall>q\<in>set ps. candidate item q \<longrightarrow> length b \<le> length q) \<and>
                     (\<forall>b0. best = Some b0 \<longrightarrow> length b \<le> length b0)"
  using assms
proof (induction ps arbitrary: best)
  case Nil
  then show ?case by (auto split: option.splits)
next
  case (Cons p ps)
  from Cons.prems have nps: "[] \<notin> set ps" and np: "p \<noteq> []" by auto
  show ?case
  proof (cases "candidate item p")
    case False
    then have eq: "bestParentLoop item (p # ps) best = bestParentLoop item ps best"
      by (auto simp: candidate_def)
    show ?thesis
      using Cons.IH [OF nps Cons.prems(2)] False unfolding eq
      by (auto split: option.splits)
  next
    case True
    show ?thesis
    proof (cases "replaces p best")
      case r: True
      have eq: "bestParentLoop item (p # ps) best = bestParentLoop item ps (Some p)"
        using True r by (auto simp: candidate_def)
      have pre: "Some p = None \<or> (\<exists>b0. Some p = Some b0 \<and> b0 \<noteq> [] \<and> candidate item b0)"
        using True np by simp
      have le: "\<forall>b0. best = Some b0 \<longrightarrow> length p \<le> length b0"
        using r Cons.prems(2) by (auto simp: replaces_def)
      show ?thesis
        using Cons.IH [OF nps pre] le unfolding eq
        by (auto split: option.splits)
    next
      case r: False
      have eq: "bestParentLoop item (p # ps) best = bestParentLoop item ps best"
        using True r by (auto simp: candidate_def)
      from r obtain b0 where b0: "best = Some b0" "b0 \<noteq> []" "length b0 \<le> length p"
        by (auto simp: replaces_def split: option.splits)
      show ?thesis
        using Cons.IH [OF nps Cons.prems(2)] b0 unfolding eq
        by (auto split: option.splits)
    qed
  qed
qed

lemma boundParent_iff:
  assumes "[] \<notin> set ps"
  shows "boundParent ps item = Some b \<longleftrightarrow>
           b \<in> set ps \<and> candidate item b \<and> (\<forall>q\<in>set ps. candidate item q \<longrightarrow> length b \<le> length q)"
proof
  assume "boundParent ps item = Some b"
  then have "bestParentLoop item ps None = Some b"
    by (auto simp: boundParent_def split: option.splits if_splits)
  with bestParentLoop_shortest [OF assms, of None item]
  show "b \<in> set ps \<and> candidate item b \<and> (\<forall>q\<in>set ps. candidate item q \<longrightarrow> length b \<le> length q)"
    by auto
next
  assume r: "b \<in> set ps \<and> candidate item b \<and> (\<forall>q\<in>set ps. candidate item q \<longrightarrow> length b \<le> length q)"
  from bestParentLoop_shortest [OF assms, of None item] r
  obtain b' where b': "bestParentLoop item ps None = Some b'" "b' \<noteq> []" "candidate item b'"
    "b' \<in> set ps" "\<forall>q\<in>set ps. candidate item q \<longrightarrow> length b' \<le> length q"
    by (cases "bestParentLoop item ps None") auto
  with r have "length b = length b'" by (meson le_antisym)
  with r b' have "b = b'" using candidate_same_length by blast
  with b' show "boundParent ps item = Some b" by (simp add: boundParent_def)
qed

lemma boundParent_from:
  "boundParent ps item = Some b \<Longrightarrow> b \<in> set ps \<and> candidate item b \<and> b \<noteq> []"
  using bestParentLoop_from [of item ps None b]
  by (auto simp: boundParent_def split: option.splits if_splits)

section \<open>The first loop: relationships and parents\<close>

lemma assignParent_boundParent:
  "assignParent pot item g =
     (case boundParent pot item of
        None \<Rightarrow> g
      | Some b \<Rightarrow> g\<lparr>relationships := (relationships g)(item \<mapsto> b), parents := insert b (parents g)\<rparr>)"
  by (simp add: assignParent_def boundParent_def split: option.splits)

lemma relationships_assignParent:
  "relationships (assignParent pot y g) x =
     (if x = y \<and> boundParent pot y \<noteq> None then boundParent pot y else relationships g x)"
  by (simp add: assignParent_boundParent split: option.splits)

lemma parents_assignParent:
  "parents (assignParent pot y g) =
     parents g \<union> (case boundParent pot y of None \<Rightarrow> {} | Some b \<Rightarrow> {b})"
  by (simp add: assignParent_boundParent split: option.splits)

lemma relationships_fold_assign:
  "relationships (fold (assignParent pot) xs g) x =
     (if x \<in> set xs \<and> boundParent pot x \<noteq> None then boundParent pot x else relationships g x)"
proof (induction xs arbitrary: g)
  case Nil
  show ?case by simp
next
  case (Cons y ys)
  show ?case
    by (auto simp: Cons.IH relationships_assignParent)
qed

lemma parents_fold_assign:
  "parents (fold (assignParent pot) xs g) =
     parents g \<union> {b. \<exists>x\<in>set xs. boundParent pot x = Some b}"
proof (induction xs arbitrary: g)
  case Nil
  show ?case by simp
next
  case (Cons y ys)
  show ?case
    by (cases "boundParent pot y") (auto simp: Cons.IH parents_assignParent)
qed

lemma relationships_groupItems:
  "relationships (groupItems items) x =
     (if x \<in> set items then boundParent (newSet items) x else None)"
  by (auto simp: groupItems_def relationships_fold_assign)

lemma parents_groupItems:
  "parents (groupItems items) = {b. \<exists>x\<in>set items. boundParent (newSet items) x = Some b}"
  by (simp add: groupItems_def parents_fold_assign)

lemma parents_groupItems_subset: "parents (groupItems items) \<subseteq> set items"
  using boundParent_from [of "newSet items"] by (auto simp: parents_groupItems)

lemma parents_groupItems_rel:
  "p \<in> parents (groupItems items) \<longleftrightarrow> (\<exists>x\<in>set items. relationships (groupItems items) x = Some p)"
  by (auto simp: parents_groupItems relationships_groupItems)

section \<open>The second loop: roots, children and orphans\<close>


lemma roots_categorize:
  "roots (categorize g x b) =
     (if x \<in> parents g \<and> x \<notin> set (roots b) then roots b @ [x] else roots b)"
  by (simp add: categorize_def split: option.splits)

lemma orphans_categorize:
  "orphans (categorize g x b) =
     (if x \<notin> parents g \<and> relationships g x = None then orphans b @ [x] else orphans b)"
  by (simp add: categorize_def split: option.splits)

lemma childrenOf_categorize:
  "childrenOf (categorize g x b) p =
     (if x \<notin> parents g \<and> relationships g x = Some p then childrenOf b p @ [x]
      else childrenOf b p)"
  by (simp add: categorize_def childrenOf_def split: option.splits)

lemma roots_fold_categorize:
  "roots (fold (categorize g) xs b) =
     fold (\<lambda>x acc. if x \<in> set acc then acc else acc @ [x])
       (filter (\<lambda>x. x \<in> parents g) xs) (roots b)"
proof (induction xs arbitrary: b)
  case Nil
  show ?case by simp
next
  case (Cons x xs)
  show ?case by (simp add: Cons.IH roots_categorize)
qed

lemma orphans_fold_categorize:
  "orphans (fold (categorize g) xs b) =
     orphans b @ filter (\<lambda>x. x \<notin> parents g \<and> relationships g x = None) xs"
proof (induction xs arbitrary: b)
  case Nil
  show ?case by simp
next
  case (Cons x xs)
  show ?case by (simp add: Cons.IH orphans_categorize)
qed

lemma childrenOf_fold_categorize:
  "childrenOf (fold (categorize g) xs b) p =
     childrenOf b p @ filter (\<lambda>x. x \<notin> parents g \<and> relationships g x = Some p) xs"
proof (induction xs arbitrary: b)
  case Nil
  show ?case by simp
next
  case (Cons x xs)
  show ?case by (simp add: Cons.IH childrenOf_categorize)
qed

lemma roots_bucketItems:
  "roots (bucketItems g items) = newSet (filter (\<lambda>x. x \<in> parents g) items)"
  by (simp add: bucketItems_def roots_fold_categorize newSet_def)

lemma orphans_bucketItems:
  "orphans (bucketItems g items) =
     filter (\<lambda>x. x \<notin> parents g \<and> relationships g x = None) items"
  by (simp add: bucketItems_def orphans_fold_categorize)

lemma childrenOf_initial [simp]:
  "childrenOf \<lparr>roots = [], parentMap = Map.empty, orphans = []\<rparr> p = []"
  by (simp add: childrenOf_def)

lemma childrenOf_bucketItems:
  "childrenOf (bucketItems g items) p =
     filter (\<lambda>x. x \<notin> parents g \<and> relationships g x = Some p) items"
  by (simp add: bucketItems_def childrenOf_fold_categorize)

section \<open>The sort keeps the elements\<close>

lemma mset_insertBy [simp]: "mset (insertBy cmp x xs) = add_mset x (mset xs)"
  by (induction xs) auto

lemma mset_array_sort [simp]: "mset (array_sort cmp xs) = mset xs"
  by (induction xs) (auto simp: array_sort_def)

lemma set_array_sort [simp]: "set (array_sort cmp xs) = set xs"
  by (metis mset_array_sort set_mset_mset)

lemma length_array_sort [simp]: "length (array_sort cmp xs) = length xs"
  by (metis mset_array_sort size_mset)

section \<open>The elements of the sorted regular items\<close>


lemma emit_childrenOf:
  "emit cmp g b item =
     item # (if item \<in> parents g then array_sort cmp (childrenOf b item) else [])"
  by (simp add: emit_def childrenOf_def)

lemma smartSortRegular_emit:
  "smartSortRegular cmp items =
     concat (map (emit cmp (groupItems items) (bucketItems (groupItems items) items))
       (allTopLevel cmp items))"
  by (simp add: smartSortRegular_def allTopLevel_def Let_def)

lemma mset_allTopLevel:
  "mset (allTopLevel cmp items) =
     mset (newSet (filter (\<lambda>x. x \<in> parents (groupItems items)) items)) +
     mset (filter (\<lambda>x. x \<notin> parents (groupItems items) \<and> relationships (groupItems items) x = None) items)"
  by (simp add: allTopLevel_def Let_def roots_bucketItems orphans_bucketItems)

lemma sum_children_over_roots:
  assumes "distinct ps"
  shows "(\<Sum>p\<leftarrow>ps. mset (filter (\<lambda>x. Q x \<and> f x = Some p) xs)) =
           mset (filter (\<lambda>x. Q x \<and> (\<exists>p\<in>set ps. f x = Some p)) xs)"
  using assms
proof (induction ps)
  case Nil
  show ?case by simp
next
  case (Cons p ps)
  have "mset (filter (\<lambda>x. Q x \<and> (\<exists>q\<in>set (p # ps). f x = Some q)) xs) =
        mset (filter (\<lambda>x. Q x \<and> f x = Some p) xs) +
        mset (filter (\<lambda>x. Q x \<and> (\<exists>q\<in>set ps. f x = Some q)) xs)"
    using Cons.prems by (induction xs) auto
  with Cons show ?case by simp
qed

lemma mset_concat_emit:
  "mset (concat (map (emit cmp g b) ts)) =
     mset ts + (\<Sum>p\<leftarrow>filter (\<lambda>t. t \<in> parents g) ts. mset (childrenOf b p))"
  by (induction ts) (auto simp: emit_childrenOf)

lemma sum_list_mset_cong:
  fixes f :: "'a \<Rightarrow> 'b multiset"
  assumes "mset xs = mset ys"
  shows "(\<Sum>x\<leftarrow>xs. f x) = (\<Sum>x\<leftarrow>ys. f x)"
proof -
  have "(\<Sum>x\<leftarrow>xs. f x) = sum_mset (image_mset f (mset xs))"
    by (simp flip: sum_mset_sum_list)
  also have "\<dots> = sum_mset (image_mset f (mset ys))"
    by (simp only: assms)
  also have "\<dots> = (\<Sum>x\<leftarrow>ys. f x)"
    by (simp flip: sum_mset_sum_list)
  finally show ?thesis .
qed

lemma mset_smartSortRegular:
  "mset (smartSortRegular cmp items) =
     mset (filter (\<lambda>x. x \<notin> parents (groupItems items)) items) +
     mset (newSet (filter (\<lambda>x. x \<in> parents (groupItems items)) items))"
proof -
  define g where "g = groupItems items"
  define b where "b = bucketItems g items"
  define rs where "rs = newSet (filter (\<lambda>x. x \<in> parents g) items)"
  define os where "os = filter (\<lambda>x. x \<notin> parents g \<and> relationships g x = None) items"
  define T where "T = allTopLevel cmp items"
  have mT: "mset T = mset rs + mset os"
    by (simp add: T_def rs_def os_def g_def mset_allTopLevel)
  have set_rs: "set rs = parents g"
    using parents_groupItems_subset [of items] by (auto simp: rs_def g_def)
  have drs: "distinct rs" by (simp add: rs_def)
  have f_rs: "filter (\<lambda>t. t \<in> parents g) rs = rs"
    using set_rs by (simp add: filter_id_conv)
  have f_os: "filter (\<lambda>t. t \<in> parents g) os = []"
    by (auto simp: os_def filter_empty_conv)
  have "mset (filter (\<lambda>t. t \<in> parents g) T) = filter_mset (\<lambda>t. t \<in> parents g) (mset T)"
    by simp
  also have "\<dots> = mset (filter (\<lambda>t. t \<in> parents g) rs) + mset (filter (\<lambda>t. t \<in> parents g) os)"
    unfolding mT by simp
  also have "\<dots> = mset rs"
    by (simp only: f_rs f_os) simp
  finally have fT: "mset (filter (\<lambda>t. t \<in> parents g) T) = mset rs" .
  have "(\<Sum>p\<leftarrow>filter (\<lambda>t. t \<in> parents g) T. mset (childrenOf b p)) =
        (\<Sum>p\<leftarrow>rs. mset (childrenOf b p))"
    using fT by (rule sum_list_mset_cong)
  also have "\<dots> = (\<Sum>p\<leftarrow>rs. mset (filter (\<lambda>x. x \<notin> parents g \<and> relationships g x = Some p) items))"
    by (simp add: b_def childrenOf_bucketItems)
  also have "\<dots> = mset (filter (\<lambda>x. x \<notin> parents g \<and> (\<exists>p\<in>set rs. relationships g x = Some p)) items)"
    by (rule sum_children_over_roots [OF drs])
  also have "\<dots> = mset (filter (\<lambda>x. x \<notin> parents g \<and> relationships g x \<noteq> None) items)"
  proof -
    have "\<And>x. x \<in> set items \<Longrightarrow>
            (\<exists>p\<in>set rs. relationships g x = Some p) \<longleftrightarrow> relationships g x \<noteq> None"
      unfolding set_rs g_def using parents_groupItems_rel [of _ items] by auto
    then have "filter (\<lambda>x. x \<notin> parents g \<and> (\<exists>p\<in>set rs. relationships g x = Some p)) items =
               filter (\<lambda>x. x \<notin> parents g \<and> relationships g x \<noteq> None) items"
      by (intro filter_cong refl) simp
    then show ?thesis by (simp only:)
  qed
  finally have ch: "(\<Sum>p\<leftarrow>filter (\<lambda>t. t \<in> parents g) T. mset (childrenOf b p)) =
        mset (filter (\<lambda>x. x \<notin> parents g \<and> relationships g x \<noteq> None) items)" .
  have "mset (smartSortRegular cmp items) = mset (concat (map (emit cmp g b) T))"
    by (simp add: smartSortRegular_emit g_def b_def T_def)
  also have "\<dots> = mset T + mset (filter (\<lambda>x. x \<notin> parents g \<and> relationships g x \<noteq> None) items)"
    by (simp only: mset_concat_emit ch)
  also have "\<dots> = mset (filter (\<lambda>x. x \<notin> parents g) items) + mset rs"
  proof -
    have "mset (filter (\<lambda>x. x \<notin> parents g) items) =
            mset os +
            mset (filter (\<lambda>x. x \<notin> parents g \<and> relationships g x \<noteq> None) items)"
      unfolding os_def by (induction items) auto
    then show ?thesis by (simp add: mT)
  qed
  finally show ?thesis by (simp only: g_def rs_def)
qed

section \<open>The shape of the sections\<close>

lemma concat_sectionsLoop: "concat (sectionsLoop names cur) = cur @ names"
  by (induction names arbitrary: cur) auto

lemma concat_sections: "concat (sections names) = names"
  by (simp add: sections_def concat_sectionsLoop)

lemma sectionsLoop_nonempty: "s \<in> set (sectionsLoop names cur) \<Longrightarrow> s \<noteq> []"
  by (induction names arbitrary: cur) (auto split: if_splits)

lemma sectionsLoop_tail:
  "s \<in> set (sectionsLoop names cur) \<Longrightarrow> \<forall>x\<in>set (tl cur). \<not> isSequenceBreaker x
     \<Longrightarrow> x \<in> set (tl s) \<Longrightarrow> \<not> isSequenceBreaker x"
proof (induction names arbitrary: cur)
  case Nil
  then show ?case by (auto split: if_splits)
next
  case (Cons name names)
  show ?case
  proof (cases "isSequenceBreaker name")
    case True
    with Cons.prems(1) consider "s = cur" | "s \<in> set (sectionsLoop names [name])"
      by (auto split: if_splits)
    then show ?thesis
    proof cases
      case 1
      with Cons.prems show ?thesis by blast
    next
      case 2
      from Cons.IH [OF 2 _ Cons.prems(3)] show ?thesis by simp
    qed
  next
    case False
    with Cons.prems(1) have s: "s \<in> set (sectionsLoop names (cur @ [name]))" by simp
    have "\<forall>x\<in>set (tl (cur @ [name])). \<not> isSequenceBreaker x"
      using Cons.prems(2) False by (cases cur) auto
    from Cons.IH [OF s this Cons.prems(3)] show ?thesis .
  qed
qed

lemma sections_nonempty: "s \<in> set (sections names) \<Longrightarrow> s \<noteq> []"
  unfolding sections_def by (rule sectionsLoop_nonempty)

lemma sections_tail:
  "s \<in> set (sections names) \<Longrightarrow> x \<in> set (tl s) \<Longrightarrow> \<not> isSequenceBreaker x"
  unfolding sections_def using sectionsLoop_tail [of s names "[]" x] by simp

section \<open>The elements of a sorted section\<close>

lemma mset_newSet_subset: "mset (newSet xs) \<subseteq># mset xs"
  unfolding mset_newSet using mset_set_set_mset_msubset [of "mset xs"] by simp

lemma count_newSet: "count (mset (newSet xs)) x = (if x \<in> set xs then 1 else 0)"
  by (simp add: mset_newSet count_mset_set')

lemma mset_newSet_eq_iff: "mset (newSet xs) = mset xs \<longleftrightarrow> distinct xs"
proof
  assume "mset (newSet xs) = mset xs"
  from mset_eq_imp_distinct_iff [OF this] show "distinct xs" by simp
next
  assume "distinct xs"
  then show "mset (newSet xs) = mset xs" by (simp add: newSet_distinct)
qed

lemma mset_split_filter: "mset xs = mset (filter P xs) + mset (filter (\<lambda>x. \<not> P x) xs)"
  by (induction xs) auto

lemma mset_smartSortRegular_subset: "mset (smartSortRegular cmp items) \<subseteq># mset items"
proof -
  define N where "N = mset (filter (\<lambda>x. x \<notin> parents (groupItems items)) items)"
  define R where "R = mset (filter (\<lambda>x. x \<in> parents (groupItems items)) items)"
  define R' where "R' = mset (newSet (filter (\<lambda>x. x \<in> parents (groupItems items)) items))"
  have a: "mset (smartSortRegular cmp items) = N + R'"
    unfolding N_def R'_def by (rule mset_smartSortRegular)
  have b: "mset items = R + N"
    unfolding N_def R_def by (rule mset_split_filter)
  have "R' \<subseteq># R"
    unfolding R_def R'_def by (rule mset_newSet_subset)
  then show ?thesis
    unfolding a b by (simp add: add.commute)
qed

lemma mset_smartSortRegular_eq_iff:
  "mset (smartSortRegular cmp items) = mset items \<longleftrightarrow>
     distinct (filter (\<lambda>x. x \<in> parents (groupItems items)) items)"
proof -
  define N where "N = mset (filter (\<lambda>x. x \<notin> parents (groupItems items)) items)"
  define R where "R = mset (filter (\<lambda>x. x \<in> parents (groupItems items)) items)"
  define R' where "R' = mset (newSet (filter (\<lambda>x. x \<in> parents (groupItems items)) items))"
  have a: "mset (smartSortRegular cmp items) = N + R'"
    unfolding N_def R'_def by (rule mset_smartSortRegular)
  have b: "mset items = R + N"
    unfolding N_def R_def by (rule mset_split_filter)
  have "mset (smartSortRegular cmp items) = mset items \<longleftrightarrow> R' = R"
    unfolding a b by (simp add: add.commute)
  then show ?thesis
    unfolding R_def R'_def by (simp only: mset_newSet_eq_iff)
qed

lemma set_smartSortRegular [simp]: "set (smartSortRegular cmp items) = set items"
proof -
  let ?P = "\<lambda>x. x \<in> parents (groupItems items)"
  have "set (smartSortRegular cmp items) = set_mset (mset (smartSortRegular cmp items))"
    by simp
  also have "\<dots> = set (filter (\<lambda>x. \<not> ?P x) items) \<union> set (newSet (filter ?P items))"
    by (simp only: mset_smartSortRegular set_mset_union set_mset_mset)
  also have "\<dots> = set items" by auto
  finally show ?thesis .
qed

lemma count_smartSortRegular:
  "count (mset (smartSortRegular cmp items)) x =
     (if x \<in> parents (groupItems items) then 1 else count (mset items) x)"
proof -
  let ?P = "\<lambda>x. x \<in> parents (groupItems items)"
  have d: "count (mset (newSet (filter ?P items))) x = (if ?P x then 1 else 0)"
    using parents_groupItems_subset [of items] by (auto simp: count_newSet)
  have e: "count (mset (filter (\<lambda>x. \<not> ?P x) items)) x = (if ?P x then 0 else count (mset items) x)"
    by simp
  show ?thesis
    by (simp only: mset_smartSortRegular count_union d e) simp
qed

lemma mset_sortSection:
  "mset (sortSection cmp s) = mset (filter isStickyHeader s) + mset (smartSortRegular cmp (regularItems s))"
  by (simp add: sortSection_def Let_def)

lemma mset_section_split: "mset s = mset (filter isStickyHeader s) + mset (regularItems s)"
  unfolding regularItems_def by (rule mset_split_filter)

lemma mset_sortSection_subset: "mset (sortSection cmp s) \<subseteq># mset s"
  unfolding mset_sortSection mset_section_split [of s]
  using mset_smartSortRegular_subset [of cmp "regularItems s"]
  by (rule mset_subset_eq_mono_add [OF subset_mset.order_refl])

lemma mset_sortSection_eq_iff:
  "mset (sortSection cmp s) = mset s \<longleftrightarrow>
     distinct (filter (\<lambda>x. x \<in> parents (groupItems (regularItems s))) (regularItems s))"
  unfolding mset_sortSection mset_section_split [of s] add_left_cancel
  by (rule mset_smartSortRegular_eq_iff)

lemma set_sortSection [simp]: "set (sortSection cmp s) = set s"
  by (auto simp: sortSection_def Let_def regularItems_def)

lemma count_sortSection:
  "count (mset (sortSection cmp s)) x =
     count (mset (filter isStickyHeader s)) x +
     (if x \<in> parents (groupItems (regularItems s)) then 1 else count (mset (regularItems s)) x)"
  by (simp only: mset_sortSection count_union count_smartSortRegular)

lemma count_list_sortSection:
  "count_list (sortSection cmp s) x =
     (if x \<in> parents (groupItems (regularItems s)) then 1 else count_list s x)"
proof (cases "x \<in> parents (groupItems (regularItems s))")
  case True
  with parents_groupItems_subset [of "regularItems s"] have "x \<in> set (regularItems s)" by blast
  then have "\<not> isStickyHeader x" by (simp add: regularItems_def)
  then have "x \<notin> set (filter isStickyHeader s)" by simp
  then have "count (mset (filter isStickyHeader s)) x = 0"
    by (simp only: count_mset_0_iff not_False_eq_True)
  with True have "count (mset (sortSection cmp s)) x = 1"
    by (simp only: count_sortSection if_True)
  with True show ?thesis by (simp only: count_mset if_True)
next
  case False
  have "count (mset s) x = count (mset (filter isStickyHeader s)) x + count (mset (regularItems s)) x"
    by (subst mset_section_split [of s]) (simp only: count_union)
  with False have "count (mset (sortSection cmp s)) x = count (mset s) x"
    by (simp only: count_sortSection if_False)
  with False show ?thesis by (simp only: count_mset if_False)
qed

lemma count_list_concat_map:
  "count_list (concat (map f ss)) x = (\<Sum>s\<leftarrow>ss. count_list (f s) x)"
  by (induction ss) simp_all

lemma count_list_sortPagesSmartly:
  "count_list (sortPagesSmartly cmp names) x =
     (\<Sum>s\<leftarrow>sections names.
        if x \<in> parents (groupItems (regularItems s)) then 1 else count_list s x)"
  by (simp only: sortPagesSmartly_sections count_list_concat_map count_list_sortSection)

lemma count_list_names:
  "count_list names x = (\<Sum>s\<leftarrow>sections names. count_list s x)"
proof -
  have "count_list (concat (map (\<lambda>s. s) (sections names))) x =
          (\<Sum>s\<leftarrow>sections names. count_list s x)"
    by (rule count_list_concat_map)
  then show ?thesis by (simp add: concat_sections)
qed

section \<open>Classification of labels\<close>

lemma trim_Cons_ink:
  assumes "\<not> isWhiteSpace c"
  shows "\<exists>r. trim (c # rest) = c # r"
proof -
  have "dropWhile isWhiteSpace (rev rest @ [c]) =
          (if \<forall>x\<in>set (rev rest). isWhiteSpace x then [c] else dropWhile isWhiteSpace (rev rest) @ [c])"
    using assms by (simp add: dropWhile_append)
  then have "trim (c # rest) =
          (if \<forall>x\<in>set (rev rest). isWhiteSpace x then [c] else c # rev (dropWhile isWhiteSpace (rev rest)))"
    using assms by (simp add: trim_def)
  then show ?thesis by (cases "\<forall>x\<in>set (rev rest). isWhiteSpace x") simp_all
qed

text \<open>
  Claim C9 says that a label is a sticky header when its trimmed form is not empty and its
  first code unit is U+00A9, U+00AE or in U+2000..U+3300. The label of U+2000 (a space,
  the lower bound of the range) followed by \<open>"x"\<close> is not: \<open>trim\<close> removes the space and
  \<open>"x"\<close> is left.
\<close>

theorem C9_counterexample:
  "((0x2000 :: code_unit) = 0x00A9 \<or> (0x2000 :: code_unit) = 0x00AE
      \<or> ((0x2000 :: code_unit) \<le> 0x2000 \<and> (0x2000 :: code_unit) \<le> 0x3300))
   \<and> trim (0x2000 # js ''x'') = js ''x''
   \<and> \<not> isStickyHeader (0x2000 # js ''x'')
   \<and> \<not> isSequenceBreaker (0x2000 # js ''x'')"
  by (simp add: model_defs)

text \<open>
  Claim C9, amended. A label is a sticky header, and so a sequence breaker, when its
  trimmed form starts with the code unit U+00A9, U+00AE or one in U+2000..U+3300, whatever
  follows; so is every label whose own first code unit is one of these and is not white
  space.
\<close>

theorem C9_symbol_first_unit_is_sticky:
  assumes "c = 0x00A9 \<or> c = 0x00AE \<or> (0x2000 \<le> c \<and> c \<le> 0x3300)"
  shows "(trim name = c # rest \<longrightarrow> isStickyHeader name \<and> isSequenceBreaker name)
       \<and> (\<not> isWhiteSpace c \<longrightarrow> isStickyHeader (c # rest) \<and> isSequenceBreaker (c # rest))"
proof -
  have a: "isStickyHeader n \<and> isSequenceBreaker n" if "trim n = c # r" for n r
    using that assms by (auto simp: isStickyHeader_def isSequenceBreaker_def)
  have "isStickyHeader (c # rest) \<and> isSequenceBreaker (c # rest)" if "\<not> isWhiteSpace c"
  proof -
    from trim_Cons_ink [OF that, of rest] obtain r where "trim (c # rest) = c # r" ..
    then show ?thesis by (rule a)
  qed
  with a show ?thesis by blast
qed

text \<open>
  The amended claim at the label of an em dash (U+2014) followed by \<open>" notes"\<close>, with
  and without white space around it.
\<close>

theorem C9_symbol_first_unit_is_sticky_witness:
  "((0x2014 :: code_unit) = 0x00A9 \<or> (0x2014 :: code_unit) = 0x00AE
      \<or> ((0x2000 :: code_unit) \<le> 0x2014 \<and> (0x2014 :: code_unit) \<le> 0x3300))
   \<and> \<not> isWhiteSpace 0x2014
   \<and> trim (js ''  '' @ 0x2014 # js '' notes '') = 0x2014 # js '' notes''
   \<and> isStickyHeader (js ''  '' @ 0x2014 # js '' notes '')
   \<and> isSequenceBreaker (js ''  '' @ 0x2014 # js '' notes '')
   \<and> isStickyHeader (0x2014 # js '' notes'') \<and> isSequenceBreaker (0x2014 # js '' notes'')
   \<and> hasLowerCase (trim (0x2014 # js '' notes''))"
proof -
  have r: "(0x2014 :: code_unit) = 0x00A9 \<or> (0x2014 :: code_unit) = 0x00AE
      \<or> ((0x2000 :: code_unit) \<le> 0x2014 \<and> (0x2014 :: code_unit) \<le> 0x3300)"
    by simp
  have w: "\<not> isWhiteSpace 0x2014" by (simp add: isWhiteSpace_def)
  have t: "trim (js ''  '' @ 0x2014 # js '' notes '') = 0x2014 # js '' notes''"
    by (simp add: trim_def isWhiteSpace_def js_def)
  have l: "hasLowerCase (trim (0x2014 # js '' notes''))"
    by (simp add: trim_def isWhiteSpace_def hasLowerCase_def js_def)
  from C9_symbol_first_unit_is_sticky [OF r, of "js ''  '' @ 0x2014 # js '' notes ''" "js '' notes''"] r w t l
  show ?thesis by blast
qed

text \<open>
  Claim C5 says that a label whose trimmed form starts with a surrogate-pair emoji is a
  sticky header. The label of the emoji U+1F525, which is the code units U+D83D U+DD25,
  followed by \<open>" hot"\<close> is not: \<open>isStickyHeader\<close> tests the regular expression on the first
  code unit alone, which none of its alternatives matches, and the label has a
  lowercase letter. Tested on the whole trimmed label the regular expression matches.
\<close>

theorem C5_surrogate_pair_emoji_not_sticky:
  "\<not> isStickyHeader ([0xD83D, 0xDD25] @ js '' hot'')
   \<and> \<not> isSequenceBreaker ([0xD83D, 0xDD25] @ js '' hot'')
   \<and> emojiRegex_test (trim ([0xD83D, 0xDD25] @ js '' hot''))"
  by (simp add: model_defs)

section \<open>Examples of runs\<close>

text \<open>
  Claim C2 says that \<open>["zebra", "ALPHA", "beta"]\<close> is sorted to
  \<open>["ALPHA", "beta", "zebra"]\<close>. It is not, here with strings compared by code units.
\<close>

theorem C2_counterexample:
  "sortPagesSmartly codeUnitCompare [js ''zebra'', js ''ALPHA'', js ''beta'']
     \<noteq> [js ''ALPHA'', js ''beta'', js ''zebra'']"
  by (simp add: model_defs)

text \<open>
  Claim C2, amended. For every comparison function the input
  \<open>["zebra", "ALPHA", "beta"]\<close> is returned as it is: the breaker \<open>"ALPHA"\<close> flushes
  \<open>"zebra"\<close> as a section of its own, and starts the second section, where it is sticky
  and stays first, before \<open>"beta"\<close>.
\<close>

theorem C2_sticky_example_two_sections:
  "sortPagesSmartly cmp [js ''zebra'', js ''ALPHA'', js ''beta'']
     = [js ''zebra'', js ''ALPHA'', js ''beta'']
   \<and> sections [js ''zebra'', js ''ALPHA'', js ''beta''] = [[js ''zebra''], [js ''ALPHA'', js ''beta'']]
   \<and> isStickyHeader (js ''ALPHA'')"
  by (simp add: model_defs)

lemma groupItems_Card:
  "groupItems [js ''Card'', js ''Space Card'', js ''Deep Space Card''] =
     \<lparr>relationships = [js ''Space Card'' \<mapsto> js ''Card'', js ''Deep Space Card'' \<mapsto> js ''Card''],
      parents = {js ''Card''}\<rparr>"
  by (simp add: model_defs)



text \<open>
  Claim C3 says that every breaker is the first element of the section it starts in the
  output. For a consistent comparison function that puts the empty string before
  \<open>"---"\<close>, the divider \<open>"---"\<close> starts the one section of \<open>["---", ""]\<close> and is
  emitted second: a divider is not sticky, and is sorted with the regular items.
\<close>

theorem C3_divider_sorted_below_blank:
  assumes "consistent cmp" and "cmp [] (js ''---'') < 0"
  shows "sortPagesSmartly cmp [js ''---'', []] = [[], js ''---'']
         \<and> sections [js ''---'', []] = [[js ''---'', []]]
         \<and> isSequenceBreaker (js ''---'')"
proof -
  have "cmp (js ''---'') [] > 0"
    using consistent_flip [OF assms] .
  then have "\<not> cmp (js ''---'') [] \<le> 0" and "cmp [] (js ''---'') \<le> 0"
    using assms(2) by simp_all
  then show ?thesis
    by (simp add: model_defs)
qed

text \<open>The same for the comparison by code units.\<close>

theorem C3_divider_sorted_below_blank_witness:
  "consistent codeUnitCompare \<and> codeUnitCompare [] (js ''---'') < 0
   \<and> sortPagesSmartly codeUnitCompare [js ''---'', []] = [[], js ''---'']"
proof -
  have c: "codeUnitCompare [] (js ''---'') < 0"
    by (simp add: js_def)
  show ?thesis
    using C3_divider_sorted_below_blank [OF consistent_codeUnitCompare c] consistent_codeUnitCompare c
    by simp
qed

section \<open>The output as a permutation of the input\<close>

lemma subset_add_eq_iff:
  fixes A B C D :: "'a multiset"
  assumes "A \<subseteq># B" and "C \<subseteq># D"
  shows "A + C = B + D \<longleftrightarrow> A = B \<and> C = D"
proof
  assume eq: "A + C = B + D"
  then have "size A + size C = size B + size D" by (metis size_union)
  moreover have "size A \<le> size B" "size C \<le> size D"
    using assms by (simp_all add: size_mset_mono)
  ultimately have s: "size A = size B" "size C = size D" by linarith+
  have "A = B"
  proof (rule ccontr)
    assume "A \<noteq> B"
    with assms(1) have "A \<subset># B" by (simp add: subset_mset.less_le)
    then have "size A < size B" by (rule mset_subset_size)
    with s show False by simp
  qed
  moreover have "C = D"
  proof (rule ccontr)
    assume "C \<noteq> D"
    with assms(2) have "C \<subset># D" by (simp add: subset_mset.less_le)
    then have "size C < size D" by (rule mset_subset_size)
    with s show False by simp
  qed
  ultimately show "A = B \<and> C = D" by simp
next
  assume "A = B \<and> C = D"
  then show "A + C = B + D" by simp
qed

lemma sum_list_subset:
  fixes f g :: "'a \<Rightarrow> 'b multiset"
  assumes "\<forall>s\<in>set ss. f s \<subseteq># g s"
  shows "(\<Sum>s\<leftarrow>ss. f s) \<subseteq># (\<Sum>s\<leftarrow>ss. g s)"
  using assms by (induction ss) (auto intro: mset_subset_eq_mono_add)

lemma sum_list_subset_eq_iff:
  fixes f g :: "'a \<Rightarrow> 'b multiset"
  assumes "\<forall>s\<in>set ss. f s \<subseteq># g s"
  shows "(\<Sum>s\<leftarrow>ss. f s) = (\<Sum>s\<leftarrow>ss. g s) \<longleftrightarrow> (\<forall>s\<in>set ss. f s = g s)"
  using assms
proof (induction ss)
  case Nil
  show ?case by simp
next
  case (Cons s ss)
  have a: "f s \<subseteq># g s" using Cons.prems by simp
  have b: "(\<Sum>s\<leftarrow>ss. f s) \<subseteq># (\<Sum>s\<leftarrow>ss. g s)"
    using Cons.prems by (intro sum_list_subset) simp
  have ih: "(\<Sum>s\<leftarrow>ss. f s) = (\<Sum>s\<leftarrow>ss. g s) \<longleftrightarrow> (\<forall>s\<in>set ss. f s = g s)"
    using Cons.IH Cons.prems by simp
  show ?case
    using subset_add_eq_iff [OF a b] ih by simp
qed

lemma mset_sortPagesSmartly_sum:
  "mset (sortPagesSmartly cmp names) = (\<Sum>s\<leftarrow>sections names. mset (sortSection cmp s))"
  by (simp add: sortPagesSmartly_sections mset_concat comp_def)

lemma mset_names_sum: "mset names = (\<Sum>s\<leftarrow>sections names. mset s)"
proof -
  have "mset names = mset (concat (sections names))" by (simp only: concat_sections)
  then show ?thesis by (simp only: mset_concat)
qed

lemma mset_sortPagesSmartly_subset: "mset (sortPagesSmartly cmp names) \<subseteq># mset names"
  unfolding mset_sortPagesSmartly_sum mset_names_sum [of names]
  by (rule sum_list_subset) (simp add: mset_sortSection_subset)

lemma mset_sortPagesSmartly_eq_iff:
  "mset (sortPagesSmartly cmp names) = mset names \<longleftrightarrow>
     (\<forall>s\<in>set (sections names).
        distinct (filter (\<lambda>x. x \<in> parents (groupItems (regularItems s))) (regularItems s)))"
proof -
  have "mset (sortPagesSmartly cmp names) = mset names \<longleftrightarrow>
          (\<forall>s\<in>set (sections names). mset (sortSection cmp s) = mset s)"
    unfolding mset_sortPagesSmartly_sum mset_names_sum [of names]
    by (rule sum_list_subset_eq_iff) (simp add: mset_sortSection_subset)
  then show ?thesis by (simp only: mset_sortSection_eq_iff)
qed

lemma set_sortPagesSmartly: "set (sortPagesSmartly cmp names) = set names"
proof -
  have "set (sortPagesSmartly cmp names) = \<Union> (set ` set (sections names))"
    by (simp add: sortPagesSmartly_sections)
  also have "\<dots> = set (concat (sections names))" by simp
  finally show ?thesis by (simp only: concat_sections)
qed

lemma distinct_sections:
  assumes "distinct names" and "s \<in> set (sections names)"
  shows "distinct s"
proof -
  have "distinct (concat (sections names))" using assms(1) by (simp only: concat_sections)
  with assms(2) show ?thesis by (simp add: distinct_concat_iff)
qed

text \<open>
  Claim C1, amended. The output is a permutation of the input exactly when no section has
  a parent label (a root) that occurs more than once among its regular items; this is
  so whenever the labels of the input are pairwise distinct. For every input the output
  holds no label more often than the input does, and holds every label of the input.
  Label by label: a section gives the output one occurrence of a label that is a parent
  in it, and as many occurrences of any other label as the section has; the occurrences
  of a label in the input are those in its sections.
\<close>

theorem C1_permutation_unless_root_repeated:
  "(mset (sortPagesSmartly cmp names) = mset names \<longleftrightarrow>
      (\<forall>s\<in>set (sections names).
         distinct (filter (\<lambda>x. x \<in> parents (groupItems (regularItems s))) (regularItems s))))
   \<and> (distinct names \<longrightarrow> mset (sortPagesSmartly cmp names) = mset names)
   \<and> mset (sortPagesSmartly cmp names) \<subseteq># mset names
   \<and> set (sortPagesSmartly cmp names) = set names
   \<and> count_list (sortPagesSmartly cmp names) x =
       (\<Sum>s\<leftarrow>sections names.
          if x \<in> parents (groupItems (regularItems s)) then 1 else count_list s x)
   \<and> count_list names x = (\<Sum>s\<leftarrow>sections names. count_list s x)"
proof -
  have "mset (sortPagesSmartly cmp names) = mset names" if "distinct names"
    unfolding mset_sortPagesSmartly_eq_iff
    using distinct_sections [OF that] by (simp add: regularItems_def)
  then show ?thesis
    using mset_sortPagesSmartly_eq_iff [of cmp names] mset_sortPagesSmartly_subset [of cmp names]
      set_sortPagesSmartly [of cmp names] count_list_sortPagesSmartly [of cmp names x]
      count_list_names [of names x]
    by blast
qed

text \<open>The amended claim at an input of four distinct labels, two of them children of a third.\<close>

theorem C1_permutation_unless_root_repeated_witness:
  "distinct [js ''Premium Price Card'', js ''Card'', js ''Alien'', js ''Price Card'']
   \<and> mset (sortPagesSmartly codeUnitCompare
        [js ''Premium Price Card'', js ''Card'', js ''Alien'', js ''Price Card''])
     = mset [js ''Premium Price Card'', js ''Card'', js ''Alien'', js ''Price Card'']"
proof -
  have d: "distinct [js ''Premium Price Card'', js ''Card'', js ''Alien'', js ''Price Card'']"
    by (simp add: js_def)
  show ?thesis
    using C1_permutation_unless_root_repeated
      [of codeUnitCompare "[js ''Premium Price Card'', js ''Card'', js ''Alien'', js ''Price Card'']"] d
    by blast
qed

text \<open>
  Claim C1 says that the output is a permutation of every input. The root \<open>"Card"\<close>,
  given twice, is emitted once: three labels go in and two come out.
\<close>

theorem C1_counterexample:
  "sortPagesSmartly codeUnitCompare [js ''Card'', js ''Card'', js ''Price Card'']
     = [js ''Card'', js ''Price Card'']
   \<and> mset (sortPagesSmartly codeUnitCompare [js ''Card'', js ''Card'', js ''Price Card''])
     \<noteq> mset [js ''Card'', js ''Card'', js ''Price Card'']"
proof -
  have r: "sortPagesSmartly codeUnitCompare [js ''Card'', js ''Card'', js ''Price Card'']
     = [js ''Card'', js ''Price Card'']"
    by (simp add: model_defs)
  have "size (mset [js ''Card'', js ''Price Card'']) \<noteq>
        size (mset [js ''Card'', js ''Card'', js ''Price Card''])" by simp
  then have "mset [js ''Card'', js ''Price Card''] \<noteq> mset [js ''Card'', js ''Card'', js ''Price Card'']"
    by metis
  with r show ?thesis by simp
qed

section \<open>The breakers of the output\<close>

lemma filter_single:
  assumes "P h" and "\<forall>x\<in>set xs. P x \<longrightarrow> x = h"
  shows "filter P xs = replicate (count_list xs h) h"
  using assms(2)
proof (induction xs)
  case Nil
  show ?case by simp
next
  case (Cons x xs)
  then have ih: "filter P xs = replicate (count_list xs h) h" by simp
  show ?case
  proof (cases "x = h")
    case True
    with assms(1) ih show ?thesis by simp
  next
    case False
    with Cons.prems have "\<not> P x" by auto
    with False ih show ?thesis by simp
  qed
qed

lemma sticky_is_breaker: "isStickyHeader x \<Longrightarrow> isSequenceBreaker x"
  by (simp add: isSequenceBreaker_def)

lemma filter_breaker_sortSection:
  assumes "\<forall>x\<in>set (tl s). \<not> isSequenceBreaker x"
  shows "filter isSequenceBreaker (sortSection cmp s) = filter isSequenceBreaker s"
proof (cases s)
  case Nil
  have "set (sortSection cmp []) = {}" by (simp only: set_sortSection) simp
  then have "sortSection cmp [] = []" by (simp only: set_empty)
  then show ?thesis using Nil by simp
next
  case (Cons h t)
  with assms have t: "\<forall>x\<in>set t. \<not> isSequenceBreaker x" by simp
  then have ft: "filter isSequenceBreaker t = []" by (simp add: filter_empty_conv)
  have only: "\<forall>x\<in>set (sortSection cmp s). isSequenceBreaker x \<longrightarrow> x = h"
    using t Cons by auto
  show ?thesis
  proof (cases "isSequenceBreaker h")
    case False
    with only have "filter isSequenceBreaker (sortSection cmp s) = []"
      by (auto simp: filter_empty_conv)
    with False ft Cons show ?thesis by simp
  next
    case True
    with t have ht: "h \<notin> set t" by blast
    have tsticky: "filter isStickyHeader t = []"
      using t sticky_is_breaker by (auto simp: filter_empty_conv)
    have "count (mset (sortSection cmp s)) h = 1"
    proof (cases "isStickyHeader h")
      case s: True
      have r: "regularItems s = regularItems t" using s Cons by (simp add: regularItems_def)
      have "h \<notin> set (regularItems t)" using ht by (simp add: regularItems_def)
      moreover have "parents (groupItems (regularItems t)) \<subseteq> set (regularItems t)"
        by (rule parents_groupItems_subset)
      ultimately have "h \<notin> parents (groupItems (regularItems t))" and "count (mset (regularItems t)) h = 0"
        by auto
      then show ?thesis
        unfolding count_sortSection r using s Cons tsticky by simp
    next
      case s: False
      have r: "regularItems s = h # regularItems t" using s Cons by (simp add: regularItems_def)
      have "h \<notin> set (regularItems t)" using ht by (simp add: regularItems_def)
      then have "count (mset (regularItems s)) h = 1" unfolding r by simp
      then show ?thesis
        unfolding count_sortSection using s Cons tsticky by simp
    qed
    then have "count_list (sortSection cmp s) h = 1" by (simp only: count_mset)
    with filter_single [OF True only] have "filter isSequenceBreaker (sortSection cmp s) = [h]"
      by simp
    with True ft Cons show ?thesis by simp
  qed
qed

text \<open>
  Claim C10. The breakers of the output are the breakers of the input, in the same order
  and as often: a section holds at most one breaker, its first element, the sorted
  section holds it exactly once, and the sections are emitted in their order.
\<close>

theorem C10_breakers_kept_in_order:
  "filter isSequenceBreaker (sortPagesSmartly cmp names) = filter isSequenceBreaker names"
proof -
  have "filter isSequenceBreaker (sortPagesSmartly cmp names) =
          concat (map (\<lambda>s. filter isSequenceBreaker (sortSection cmp s)) (sections names))"
    by (simp add: sortPagesSmartly_sections filter_concat comp_def)
  also have "\<dots> = concat (map (filter isSequenceBreaker) (sections names))"
  proof -
    have "map (\<lambda>s. filter isSequenceBreaker (sortSection cmp s)) (sections names) =
          map (filter isSequenceBreaker) (sections names)"
      by (rule map_cong [OF refl]) (simp add: filter_breaker_sortSection sections_tail)
    then show ?thesis by (simp only:)
  qed
  also have "\<dots> = filter isSequenceBreaker (concat (sections names))"
    by (simp add: filter_concat)
  finally show ?thesis by (simp only: concat_sections)
qed

section \<open>Matching on the raw labels\<close>

text \<open>
  Claim C6 says that \<open>P\<close> is a candidate parent of \<open>X\<close> exactly when the trimmed form of
  \<open>X\<close> ends with a space and \<open>P\<close>. The trimmed form of \<open>"Alpha Zeta "\<close> ends with
  \<open>" Zeta"\<close>, but the label itself does not, and is bound to no parent: the three labels
  are orphans, sorted here by code units. In the other direction \<open>"a  "\<close> ends with a space
  and the label \<open>" "\<close>, and is bound to it, while its trimmed form \<open>"a"\<close> does not.
\<close>

theorem C6_counterexample:
  "endsWith (trim (js ''Alpha Zeta '')) (0x0020 # js ''Zeta'')
   \<and> \<not> candidate (js ''Alpha Zeta '') (js ''Zeta'')
   \<and> sections [js ''Alpha Zeta '', js ''Mu'', js ''Zeta''] = [[js ''Alpha Zeta '', js ''Mu'', js ''Zeta'']]
   \<and> regularItems [js ''Alpha Zeta '', js ''Mu'', js ''Zeta''] = [js ''Alpha Zeta '', js ''Mu'', js ''Zeta'']
   \<and> relationships (groupItems [js ''Alpha Zeta '', js ''Mu'', js ''Zeta'']) (js ''Alpha Zeta '') = None
   \<and> sortPagesSmartly codeUnitCompare [js ''Alpha Zeta '', js ''Mu'', js ''Zeta'']
       = [js ''Alpha Zeta '', js ''Mu'', js ''Zeta'']
   \<and> \<not> endsWith (trim (js ''a  '')) (0x0020 # js '' '')
   \<and> relationships (groupItems [js ''a  '', js '' '']) (js ''a  '') = Some (js '' '')"
  by (simp add: model_defs candidate_def)

text \<open>
  Claim C6, amended. Matching works on the labels as they are, not on their trimmed
  forms. An item \<open>x\<close> is bound only to another item \<open>p\<close> of the list such that \<open>x\<close>
  itself ends with a space and \<open>p\<close>; and in a list without the empty label, \<open>x\<close> is bound
  to \<open>p\<close> exactly when \<open>p\<close> is such an item and no such item is shorter.
\<close>

theorem C6_matching_on_raw_labels:
  "(relationships (groupItems items) x = Some p \<longrightarrow>
      x \<in> set items \<and> p \<in> set items \<and> p \<noteq> x \<and> endsWith x (0x0020 # p))
   \<and> (x \<in> set items \<and> [] \<notin> set items \<longrightarrow>
      (relationships (groupItems items) x = Some p \<longleftrightarrow>
         p \<in> set items \<and> p \<noteq> x \<and> endsWith x (0x0020 # p) \<and>
         (\<forall>q\<in>set items. q \<noteq> x \<and> endsWith x (0x0020 # q) \<longrightarrow> length p \<le> length q)))"
proof -
  have a: "x \<in> set items \<and> p \<in> set items \<and> p \<noteq> x \<and> endsWith x (0x0020 # p)"
    if "relationships (groupItems items) x = Some p"
  proof -
    from that have x: "x \<in> set items" and "boundParent (newSet items) x = Some p"
      by (auto simp: relationships_groupItems split: if_splits)
    from boundParent_from [OF this(2)] x show ?thesis
      by (auto simp: candidate_def)
  qed
  have b: "relationships (groupItems items) x = Some p \<longleftrightarrow>
         p \<in> set items \<and> p \<noteq> x \<and> endsWith x (0x0020 # p) \<and>
         (\<forall>q\<in>set items. q \<noteq> x \<and> endsWith x (0x0020 # q) \<longrightarrow> length p \<le> length q)"
    if "x \<in> set items" and "[] \<notin> set items"
  proof -
    have "[] \<notin> set (newSet items)" using that(2) by simp
    from boundParent_iff [OF this, of x p] that(1) show ?thesis
      by (auto simp: relationships_groupItems candidate_def)
  qed
  from a b show ?thesis by blast
qed

text \<open>The amended claim at \<open>"Deep Space Card"\<close>, bound to \<open>"Card"\<close>.\<close>

theorem C6_matching_on_raw_labels_witness:
  "relationships (groupItems [js ''Card'', js ''Space Card'', js ''Deep Space Card''])
      (js ''Deep Space Card'') = Some (js ''Card'')
   \<and> js ''Deep Space Card'' \<in> set [js ''Card'', js ''Space Card'', js ''Deep Space Card'']
   \<and> [] \<notin> set [js ''Card'', js ''Space Card'', js ''Deep Space Card'']
   \<and> endsWith (js ''Deep Space Card'') (0x0020 # js ''Card'')
   \<and> length (js ''Card'') \<le> length (js ''Space Card'')"
proof -
  have r: "relationships (groupItems [js ''Card'', js ''Space Card'', js ''Deep Space Card''])
      (js ''Deep Space Card'') = Some (js ''Card'')"
    by (simp add: groupItems_Card)
  have m: "js ''Deep Space Card'' \<in> set [js ''Card'', js ''Space Card'', js ''Deep Space Card'']"
    "[] \<notin> set [js ''Card'', js ''Space Card'', js ''Deep Space Card'']"
    by (simp_all add: js_def)
  have l: "length (js ''Card'') \<le> length (js ''Space Card'')" by (simp add: js_def)
  from C6_matching_on_raw_labels
    [of "[js ''Card'', js ''Space Card'', js ''Deep Space Card'']" "js ''Deep Space Card''" "js ''Card''"]
    r m l
  show ?thesis by blast
qed

section \<open>Dividers as parents\<close>

lemma divider_not_sticky: "isDivider d \<Longrightarrow> \<not> isStickyHeader d"
proof -
  assume d: "isDivider d"
  then obtain c cs where t: "trim d = c # cs" by (cases "trim d") (auto simp: isDivider_def)
  with d have all: "\<forall>x\<in>set (c # cs). x = 0x002D" by (simp add: isDivider_def list_all_iff)
  then have c: "c = 0x002D" by simp
  have "\<not> hasUpperCase (c # cs)"
    using all unfolding hasUpperCase_def list_ex_iff by auto
  with t c show ?thesis by (simp add: isStickyHeader_def)
qed

lemma bestParentLoop_skip:
  "\<not> candidate item q \<Longrightarrow>
     bestParentLoop item (filter (\<lambda>p. p \<noteq> q) ps) best = bestParentLoop item ps best"
  by (induction ps arbitrary: best) (auto simp: candidate_def)

lemma boundParent_shortest_candidate:
  assumes "\<forall>p\<in>set ps. candidate item p \<longrightarrow> p \<noteq> []"
  shows "boundParent ps item = Some b \<longleftrightarrow>
           b \<in> set ps \<and> candidate item b \<and> (\<forall>q\<in>set ps. candidate item q \<longrightarrow> length b \<le> length q)"
proof (cases "[] \<in> set ps")
  case False
  then show ?thesis by (rule boundParent_iff)
next
  case True
  with assms have nc: "\<not> candidate item []" by blast
  let ?qs = "filter (\<lambda>p. p \<noteq> []) ps"
  have "[] \<notin> set ?qs" by simp
  from boundParent_iff [OF this, of item b]
  have "boundParent ?qs item = Some b \<longleftrightarrow>
          b \<in> set ?qs \<and> candidate item b \<and> (\<forall>q\<in>set ?qs. candidate item q \<longrightarrow> length b \<le> length q)" .
  moreover have "boundParent ?qs item = boundParent ps item"
    by (simp only: boundParent_def bestParentLoop_skip [OF nc])
  moreover have "b \<in> set ?qs \<and> candidate item b \<longleftrightarrow> b \<in> set ps \<and> candidate item b"
    using nc by auto
  moreover have "(\<forall>q\<in>set ?qs. candidate item q \<longrightarrow> length b \<le> length q) \<longleftrightarrow>
                 (\<forall>q\<in>set ps. candidate item q \<longrightarrow> length b \<le> length q)"
    using nc by auto
  ultimately show ?thesis by (simp only:) blast
qed

text \<open>
  Claim C4 says that a divider is never given children. In \<open>["---", "a ---"]\<close> the
  divider \<open>"---"\<close> is the parent of \<open>"a ---"\<close>, which is emitted below it as its child.
\<close>

theorem C4_counterexample:
  "isDivider (js ''---'')
   \<and> sections [js ''---'', js ''a ---''] = [[js ''---'', js ''a ---'']]
   \<and> js ''---'' \<in> parents (groupItems (regularItems [js ''---'', js ''a ---'']))
   \<and> relationships (groupItems (regularItems [js ''---'', js ''a ---''])) (js ''a ---'')
       = Some (js ''---'')
   \<and> sortPagesSmartly codeUnitCompare [js ''---'', js ''a ---''] = [js ''---'', js ''a ---'']"
  by (simp add: model_defs)

text \<open>
  Claim C4, amended. A divider is given children as any other label is: in its section it
  is a parent only when another regular item ends with a space and the divider, and it
  is a parent whenever it is the shortest label that some other regular item ends with
  after a space.
\<close>

theorem C4_divider_parent_of_suffixed_items:
  assumes "s \<in> set (sections names)" and "d \<in> set s" and "isDivider d"
  shows "(d \<in> parents (groupItems (regularItems s)) \<longrightarrow>
           (\<exists>x\<in>set (regularItems s). x \<noteq> d \<and> endsWith x (0x0020 # d)))
    \<and> ((\<exists>x\<in>set (regularItems s). x \<noteq> d \<and> endsWith x (0x0020 # d) \<and>
           (\<forall>q\<in>set (regularItems s). q \<noteq> x \<and> endsWith x (0x0020 # q) \<longrightarrow> length d \<le> length q))
         \<longrightarrow> d \<in> parents (groupItems (regularItems s)))"
proof -
  let ?R = "regularItems s"
  have reg: "d \<in> set ?R"
    using assms(2) divider_not_sticky [OF assms(3)] by (simp add: regularItems_def)
  have dne: "d \<noteq> []" using assms(3) by (auto simp: isDivider_def trim_def)
  have par: "\<exists>x\<in>set ?R. x \<noteq> d \<and> endsWith x (0x0020 # d)" if "d \<in> parents (groupItems ?R)"
  proof -
    from that obtain x where "x \<in> set ?R" "boundParent (newSet ?R) x = Some d"
      by (auto simp: parents_groupItems)
    with boundParent_from [of "newSet ?R" x d] show ?thesis
      by (auto simp: candidate_def)
  qed
  have conv: "d \<in> parents (groupItems ?R)"
    if "\<exists>x\<in>set ?R. x \<noteq> d \<and> endsWith x (0x0020 # d) \<and>
           (\<forall>q\<in>set ?R. q \<noteq> x \<and> endsWith x (0x0020 # q) \<longrightarrow> length d \<le> length q)"
  proof -
    from that obtain x where x0: "x \<in> set ?R" "x \<noteq> d" "endsWith x (0x0020 # d)"
      and m0: "\<forall>q\<in>set ?R. q \<noteq> x \<and> endsWith x (0x0020 # q) \<longrightarrow> length d \<le> length q"
      by blast
    from x0 have x: "x \<in> set ?R" "candidate x d" by (simp_all add: candidate_def)
    from m0 have m: "\<forall>q\<in>set ?R. candidate x q \<longrightarrow> length d \<le> length q"
      by (auto simp: candidate_def)
    have "\<forall>p\<in>set (newSet ?R). candidate x p \<longrightarrow> p \<noteq> []"
      using m dne by fastforce
    from boundParent_shortest_candidate [OF this, of d] x m reg
    have "boundParent (newSet ?R) x = Some d" by simp
    with x(1) show ?thesis by (auto simp: parents_groupItems)
  qed
  from par conv show ?thesis by blast
qed

text \<open>The amended claim at the divider \<open>"---"\<close>, the parent of \<open>"a ---"\<close>.\<close>

theorem C4_divider_parent_of_suffixed_items_witness:
  "[js ''---'', js ''a ---''] \<in> set (sections [js ''---'', js ''a ---''])
   \<and> js ''---'' \<in> set [js ''---'', js ''a ---''] \<and> isDivider (js ''---'')
   \<and> js ''---'' \<in> parents (groupItems (regularItems [js ''---'', js ''a ---'']))
   \<and> (\<exists>x\<in>set (regularItems [js ''---'', js ''a ---'']).
         x \<noteq> js ''---'' \<and> endsWith x (0x0020 # js ''---''))"
proof -
  have a: "[js ''---'', js ''a ---''] \<in> set (sections [js ''---'', js ''a ---''])"
    by (simp add: model_defs)
  have b: "js ''---'' \<in> set [js ''---'', js ''a ---'']" by simp
  have c: "isDivider (js ''---'')" by (simp add: model_defs)
  have p: "js ''---'' \<in> parents (groupItems (regularItems [js ''---'', js ''a ---'']))"
    by (simp add: model_defs)
  from C4_divider_parent_of_suffixed_items [OF a b c] p a b c
  show ?thesis by blast
qed

section \<open>Sorting with a consistent comparison function\<close>


lemma consistent_refl: "consistent cmp \<Longrightarrow> cmp a a = 0"
  unfolding consistent_def by blast

lemma consistent_flip_gt:
  assumes "consistent cmp" and "cmp a b > 0"
  shows "cmp b a < 0"
proof (rule ccontr)
  assume "\<not> cmp b a < 0"
  then consider "cmp b a > 0" | "cmp b a = 0" by linarith
  then show False
  proof cases
    case 1
    with assms have "cmp a a > 0" unfolding consistent_def by blast
    with consistent_refl [OF assms(1), of a] show False by simp
  next
    case 2
    with assms(1) have "cmp a b = 0" unfolding consistent_def by blast
    with assms(2) show False by simp
  qed
qed

lemma consistent_less_eq:
  assumes "consistent cmp" and "cmp a b < 0" and "cmp b c = 0"
  shows "cmp a c < 0"
proof (rule ccontr)
  assume "\<not> cmp a c < 0"
  then consider "cmp a c = 0" | "cmp a c > 0" by linarith
  then show False
  proof cases
    case 1
    from assms(1,3) have "cmp c b = 0" unfolding consistent_def by blast
    with 1 assms(1) have "cmp a b = 0" unfolding consistent_def by blast
    with assms(2) show False by simp
  next
    case 2
    from consistent_flip_gt [OF assms(1) 2] have "cmp c a < 0" .
    with assms(1,2) have "cmp c b < 0" unfolding consistent_def by blast
    moreover from assms(1,3) have "cmp c b = 0" unfolding consistent_def by blast
    ultimately show False by simp
  qed
qed

lemma consistent_eq_less:
  assumes "consistent cmp" and "cmp a b = 0" and "cmp b c < 0"
  shows "cmp a c < 0"
proof (rule ccontr)
  assume "\<not> cmp a c < 0"
  then consider "cmp a c = 0" | "cmp a c > 0" by linarith
  then show False
  proof cases
    case 1
    from assms(1,2) have "cmp b a = 0" unfolding consistent_def by blast
    with 1 assms(1) have "cmp b c = 0" unfolding consistent_def by blast
    with assms(3) show False by simp
  next
    case 2
    from consistent_flip_gt [OF assms(1) 2] have "cmp c a < 0" .
    with assms(1,3) have "cmp b a < 0" unfolding consistent_def by blast
    moreover from assms(1,2) have "cmp b a = 0" unfolding consistent_def by blast
    ultimately show False by simp
  qed
qed

lemma consistent_le_trans:
  assumes "consistent cmp" and "cmp a b \<le> 0" and "cmp b c \<le> 0"
  shows "cmp a c \<le> 0"
proof -
  consider "cmp a b < 0" "cmp b c < 0" | "cmp a b < 0" "cmp b c = 0"
    | "cmp a b = 0" "cmp b c < 0" | "cmp a b = 0" "cmp b c = 0"
    using assms(2,3) by linarith
  then show ?thesis
  proof cases
    case 1
    with assms(1) have "cmp a c < 0" unfolding consistent_def by blast
    then show ?thesis by simp
  next
    case 2
    from consistent_less_eq [OF assms(1) 2] show ?thesis by simp
  next
    case 3
    from consistent_eq_less [OF assms(1) 3] show ?thesis by simp
  next
    case 4
    with assms(1) have "cmp a c = 0" unfolding consistent_def by blast
    then show ?thesis by simp
  qed
qed

lemma array_sort_Nil [simp]: "array_sort cmp [] = []"
  by (simp add: array_sort_def)

lemma array_sort_Cons: "array_sort cmp (x # xs) = insertBy cmp x (array_sort cmp xs)"
  by (simp add: array_sort_def)

lemma array_sort_append:
  "array_sort cmp (xs @ ys) = foldr (insertBy cmp) xs (array_sort cmp ys)"
  by (simp add: array_sort_def)

lemma set_insertBy [simp]: "set (insertBy cmp x xs) = insert x (set xs)"
  by (metis mset_insertBy set_mset_add_mset_insert set_mset_mset)

lemma insertBy_first: "\<forall>y\<in>set ys. cmp x y \<le> 0 \<Longrightarrow> insertBy cmp x ys = x # ys"
  by (cases ys) simp_all

lemma insertBy_before:
  assumes "consistent cmp" and "sorted_wrt (before cmp P) ys"
    and "\<not> P x \<longrightarrow> (\<forall>y\<in>set ys. \<not> P y)"
  shows "sorted_wrt (before cmp P) (insertBy cmp x ys)"
  using assms(2,3)
proof (induction ys)
  case Nil
  show ?case by simp
next
  case (Cons y ys)
  show ?case
  proof (cases "cmp x y \<le> 0")
    case True
    have "before cmp P x z" if "z \<in> set (y # ys)" for z
    proof -
      have "cmp x z \<le> 0"
      proof (cases "z = y")
        case True
        with \<open>cmp x y \<le> 0\<close> show ?thesis by simp
      next
        case False
        with that Cons.prems(1) have "cmp y z \<le> 0" by (auto simp: before_def)
        from consistent_le_trans [OF assms(1) True this] show ?thesis .
      qed
      moreover have "\<not> (\<not> P x \<and> P z)" using Cons.prems(2) that by blast
      ultimately show ?thesis by (auto simp: before_def)
    qed
    with Cons.prems(1) True show ?thesis by simp
  next
    case False
    then have gt: "cmp x y > 0" by simp
    from consistent_flip_gt [OF assms(1) gt] have "cmp y x < 0" .
    with gt have yx: "before cmp P y x" by (simp add: before_def)
    have s: "sorted_wrt (before cmp P) ys" using Cons.prems(1) by simp
    have n: "\<not> P x \<longrightarrow> (\<forall>y\<in>set ys. \<not> P y)" using Cons.prems(2) by simp
    have ih: "sorted_wrt (before cmp P) (insertBy cmp x ys)"
      using s n by (rule Cons.IH)
    from Cons.prems(1) have "\<forall>z\<in>set ys. before cmp P y z" by simp
    with yx ih False show ?thesis by simp
  qed
qed

lemma array_sort_before:
  assumes "consistent cmp" and "sorted_wrt (\<lambda>a b. \<not> P a \<longrightarrow> \<not> P b) xs"
  shows "sorted_wrt (before cmp P) (array_sort cmp xs)"
  using assms(2)
proof (induction xs)
  case Nil
  show ?case by simp
next
  case (Cons x xs)
  from Cons.prems have s: "sorted_wrt (\<lambda>a b. \<not> P a \<longrightarrow> \<not> P b) xs" by simp
  have ih: "sorted_wrt (before cmp P) (array_sort cmp xs)" using s by (rule Cons.IH)
  from Cons.prems have "\<not> P x \<longrightarrow> (\<forall>y\<in>set (array_sort cmp xs). \<not> P y)" by simp
  from insertBy_before [OF assms(1) ih this] show ?case by (simp only: array_sort_Cons)
qed

lemma before_ordered: "sorted_wrt (before cmp P) xs \<Longrightarrow> ordered cmp xs"
  unfolding ordered_def by (rule sorted_wrt_mono_rel) (simp_all add: before_def)

lemma ordered_array_sort: "consistent cmp \<Longrightarrow> ordered cmp (array_sort cmp xs)"
proof -
  assume c: "consistent cmp"
  have "sorted_wrt (\<lambda>a b. \<not> (\<lambda>_. True) a \<longrightarrow> \<not> (\<lambda>_. True) b) xs"
    by (induction xs) simp_all
  from before_ordered [OF array_sort_before [OF c this]] show ?thesis .
qed

lemma array_sort_ordered: "ordered cmp xs \<Longrightarrow> array_sort cmp xs = xs"
proof (induction xs)
  case Nil
  show ?case by simp
next
  case (Cons x xs)
  then have "array_sort cmp xs = xs" and "\<forall>y\<in>set xs. cmp x y \<le> 0"
    by (simp_all add: ordered_def)
  then show ?case by (simp add: array_sort_Cons insertBy_first)
qed

lemma array_sort_idem: "consistent cmp \<Longrightarrow> array_sort cmp (array_sort cmp xs) = array_sort cmp xs"
  by (rule array_sort_ordered) (rule ordered_array_sort)

lemma ordered_filter: "ordered cmp xs \<Longrightarrow> ordered cmp (filter Q xs)"
  unfolding ordered_def by (rule sorted_wrt_filter)

lemma foldr_insertBy_skip:
  "\<forall>a\<in>set as. 0 < cmp a t \<Longrightarrow>
     foldr (insertBy cmp) as (t # ys) = t # foldr (insertBy cmp) as ys"
  by (induction as) simp_all

lemma array_sort_merge_back:
  assumes "sorted_wrt (before cmp P) ts"
  shows "array_sort cmp (filter P ts @ filter (\<lambda>x. \<not> P x) ts) = ts"
  using assms
proof (induction ts)
  case Nil
  show ?case by simp
next
  case (Cons t ts)
  then have ih: "array_sort cmp (filter P ts @ filter (\<lambda>x. \<not> P x) ts) = ts" by simp
  from Cons.prems have le: "\<forall>y\<in>set ts. cmp t y \<le> 0" by (simp add: before_def)
  show ?case
  proof (cases "P t")
    case True
    then have "array_sort cmp (filter P (t # ts) @ filter (\<lambda>x. \<not> P x) (t # ts)) =
               insertBy cmp t (array_sort cmp (filter P ts @ filter (\<lambda>x. \<not> P x) ts))"
      by (simp add: array_sort_Cons)
    also have "\<dots> = t # ts" unfolding ih using le by (rule insertBy_first)
    finally show ?thesis .
  next
    case False
    let ?B = "filter (\<lambda>x. \<not> P x) ts"
    have gt: "\<forall>a\<in>set (filter P ts). 0 < cmp a t"
      using Cons.prems False by (auto simp: before_def)
    have "\<forall>y\<in>set (array_sort cmp ?B). cmp t y \<le> 0" using le by simp
    then have first: "insertBy cmp t (array_sort cmp ?B) = t # array_sort cmp ?B"
      by (rule insertBy_first)
    have "array_sort cmp (filter P (t # ts) @ filter (\<lambda>x. \<not> P x) (t # ts)) =
          foldr (insertBy cmp) (filter P ts) (array_sort cmp (t # ?B))"
      using False by (simp add: array_sort_append)
    also have "\<dots> = foldr (insertBy cmp) (filter P ts) (t # array_sort cmp ?B)"
      by (simp only: array_sort_Cons first)
    also have "\<dots> = t # foldr (insertBy cmp) (filter P ts) (array_sort cmp ?B)"
      using gt by (rule foldr_insertBy_skip)
    also have "\<dots> = t # array_sort cmp (filter P ts @ ?B)"
      by (simp only: array_sort_append)
    finally show ?thesis by (simp only: ih)
  qed
qed

section \<open>Sorting the sorted regular items again\<close>


lemma emit_bucketItems:
  "emit cmp g (bucketItems g items) =
     (\<lambda>t. t # (if t \<in> parents g
                 then array_sort cmp (filter (\<lambda>x. x \<notin> parents g \<and> relationships g x = Some t) items)
                 else []))"
  by (rule ext) (simp add: emit_childrenOf childrenOf_bucketItems)

lemma smartSortRegular_arrange:
  "smartSortRegular cmp items =
     arrange cmp (parents (groupItems items)) (relationships (groupItems items)) items"
  by (simp only: smartSortRegular_emit arrange_def allTopLevel_def Let_def emit_bucketItems
      roots_bucketItems orphans_bucketItems)

lemma filter_concat_heads:
  assumes "\<forall>t\<in>set ts. filter Q (E t) = filter Q [t]"
  shows "filter Q (concat (map E ts)) = filter Q ts"
  using assms by (induction ts) simp_all

lemma concat_map_single:
  "concat (map (\<lambda>t. if t = p then X else []) ts) = concat (replicate (count_list ts p) X)"
  by (induction ts) simp_all

lemma filter_concat_children:
  assumes "\<forall>t\<in>set ts. filter Q (E t) = (if t = p then X else [])"
    and "count_list ts p = 1"
  shows "filter Q (concat (map E ts)) = X"
proof -
  have "filter Q (concat (map E ts)) = concat (map (\<lambda>t. filter Q (E t)) ts)"
    by (simp add: filter_concat comp_def)
  also have "\<dots> = concat (map (\<lambda>t. if t = p then X else []) ts)"
    using assms(1) by (simp cong: map_cong)
  also have "\<dots> = X"
    by (simp only: concat_map_single assms(2)) simp
  finally show ?thesis .
qed

lemma sorted_wrt_all: "\<forall>a\<in>set xs. \<forall>b\<in>set xs. R a b \<Longrightarrow> sorted_wrt R xs"
  by (induction xs) simp_all

lemma arrange_idem:
  assumes c: "consistent cmp"
    and sub: "P \<subseteq> set items"
    and relP: "\<forall>x\<in>set items. \<forall>p. rel x = Some p \<longrightarrow> p \<in> P"
  shows "arrange cmp P rel (arrange cmp P rel items) = arrange cmp P rel items"
proof -
  define inP where "inP = (\<lambda>x. x \<in> P)"
  define orphan where "orphan = (\<lambda>x. x \<notin> P \<and> rel x = None)"
  define childOf where "childOf = (\<lambda>t x. x \<notin> P \<and> rel x = Some t)"
  define rs where "rs = newSet (filter inP items)"
  define os where "os = filter orphan items"
  define T where "T = array_sort cmp (array_sort cmp rs @ array_sort cmp os)"
  define E where "E = (\<lambda>t. t # (if t \<in> P then array_sort cmp (filter (childOf t) items) else []))"
  define out where "out = concat (map E T)"
  have out: "arrange cmp P rel items = out"
    unfolding arrange_def out_def E_def T_def rs_def os_def inP_def orphan_def childOf_def
    by (rule refl)
  have set_rs: "set rs = P" using sub by (auto simp: rs_def inP_def)
  have d_rs: "distinct rs" by (simp add: rs_def)
  have set_os: "\<forall>x\<in>set os. orphan x" by (simp add: os_def)
  have set_T: "set T = set rs \<union> set os" by (simp add: T_def)
  have mset_T: "mset T = mset rs + mset os" by (simp add: T_def)
  have top: "inP t \<or> orphan t" if "t \<in> set T" for t
    using that set_T set_rs set_os by (auto simp: inP_def)
  have kids: "childOf t x" if "x \<in> set (array_sort cmp (filter (childOf t) items))" for t x
    using that by simp
  \<comment> \<open>the roots, the orphans and the children found in the output\<close>
  have f_inP: "filter inP out = filter inP T"
    unfolding out_def
  proof (rule filter_concat_heads, rule ballI)
    fix t assume "t \<in> set T"
    have "filter inP (array_sort cmp (filter (childOf t) items)) = []"
      using kids [of _ t] by (auto simp: filter_empty_conv inP_def childOf_def)
    then show "filter inP (E t) = filter inP [t]" by (simp add: E_def)
  qed
  have f_orphan: "filter orphan out = filter orphan T"
    unfolding out_def
  proof (rule filter_concat_heads, rule ballI)
    fix t assume "t \<in> set T"
    have "filter orphan (array_sort cmp (filter (childOf t) items)) = []"
      using kids [of _ t] by (auto simp: filter_empty_conv orphan_def childOf_def)
    then show "filter orphan (E t) = filter orphan [t]" by (simp add: E_def)
  qed
  have f_child: "filter (childOf p) out = array_sort cmp (filter (childOf p) items)" if "p \<in> P" for p
    unfolding out_def
  proof (rule filter_concat_children)
    show "\<forall>t\<in>set T. filter (childOf p) (E t) =
            (if t = p then array_sort cmp (filter (childOf p) items) else [])"
    proof
      fix t assume t: "t \<in> set T"
      from top [OF t] have nt: "\<not> childOf p t" by (auto simp: inP_def orphan_def childOf_def)
      show "filter (childOf p) (E t) =
            (if t = p then array_sort cmp (filter (childOf p) items) else [])"
      proof (cases "t = p")
        case True
        have "filter (childOf p) (array_sort cmp (filter (childOf p) items)) =
              array_sort cmp (filter (childOf p) items)"
          using kids [of _ p] by (simp add: filter_id_conv)
        with True nt that show ?thesis by (simp add: E_def)
      next
        case False
        have "filter (childOf p) (array_sort cmp (filter (childOf t) items)) = []"
          using kids [of _ t] False by (auto simp: filter_empty_conv childOf_def)
        with False nt show ?thesis by (simp add: E_def)
      qed
    qed
    have "count (mset T) p = count (mset rs) p + count (mset os) p"
      by (simp only: mset_T count_union)
    moreover have "count (mset rs) p = 1"
      using that set_rs d_rs by (simp add: distinct_count_atmost_1)
    moreover have "p \<notin> set os" using that set_os by (auto simp: orphan_def)
    then have "count (mset os) p = 0" by (simp only: count_mset_0_iff not_False_eq_True)
    ultimately have "count (mset T) p = 1" by simp
    then show "count_list T p = 1" by (simp only: count_mset)
  qed
  \<comment> \<open>the top-level items of the second run\<close>
  have "sorted_wrt (\<lambda>a b. \<not> inP a \<longrightarrow> \<not> inP b) (array_sort cmp rs)"
    using set_rs by (intro sorted_wrt_all) (auto simp: inP_def)
  moreover have "sorted_wrt (\<lambda>a b. \<not> inP a \<longrightarrow> \<not> inP b) (array_sort cmp os)"
    using set_os by (intro sorted_wrt_all) (auto simp: inP_def orphan_def)
  moreover have "\<forall>a\<in>set (array_sort cmp rs). \<forall>b\<in>set (array_sort cmp os). \<not> inP a \<longrightarrow> \<not> inP b"
    using set_rs by (auto simp: inP_def)
  ultimately have "sorted_wrt (\<lambda>a b. \<not> inP a \<longrightarrow> \<not> inP b) (array_sort cmp rs @ array_sort cmp os)"
    by (simp only: sorted_wrt_append)
  from array_sort_before [OF c this] have bT: "sorted_wrt (before cmp inP) T"
    by (simp only: T_def)
  then have oT: "ordered cmp T" by (rule before_ordered)
  have "mset (filter inP T) = mset (filter inP rs) + mset (filter inP os)"
    using mset_T by (metis filter_union_mset mset_filter)
  moreover have "filter inP rs = rs" using set_rs by (simp add: filter_id_conv inP_def)
  moreover have "filter inP os = []" using set_os by (auto simp: filter_empty_conv inP_def orphan_def)
  ultimately have "mset (filter inP T) = mset rs" by simp
  from mset_eq_imp_distinct_iff [OF this] d_rs have "distinct (filter inP T)" by simp
  then have rs': "newSet (filter inP out) = filter inP T"
    by (simp only: f_inP newSet_distinct)
  have os': "filter orphan out = filter (\<lambda>x. \<not> inP x) T"
    unfolding f_orphan using top by (intro filter_cong refl) (auto simp: inP_def orphan_def)
  have T': "array_sort cmp (array_sort cmp (newSet (filter inP out)) @ array_sort cmp (filter orphan out)) = T"
  proof -
    have "array_sort cmp (filter inP T) = filter inP T"
      using oT by (intro array_sort_ordered ordered_filter)
    moreover have "array_sort cmp (filter (\<lambda>x. \<not> inP x) T) = filter (\<lambda>x. \<not> inP x) T"
      using oT by (intro array_sort_ordered ordered_filter)
    ultimately show ?thesis
      by (simp only: rs' os' array_sort_merge_back [OF bT])
  qed
  have E': "t # (if t \<in> P then array_sort cmp (filter (childOf t) out) else []) = E t" for t
  proof (cases "t \<in> P")
    case True
    then show ?thesis by (simp add: E_def f_child array_sort_idem [OF c])
  next
    case False
    then show ?thesis by (simp add: E_def)
  qed
  have "arrange cmp P rel out = concat (map E T)"
  proof -
    have "arrange cmp P rel out =
      concat (map (\<lambda>t. t # (if t \<in> P then array_sort cmp (filter (childOf t) out) else []))
        (array_sort cmp (array_sort cmp (newSet (filter inP out)) @ array_sort cmp (filter orphan out))))"
      unfolding arrange_def inP_def orphan_def childOf_def by (rule refl)
    then show ?thesis by (simp only: T' E')
  qed
  then show ?thesis by (simp only: out out_def)
qed

lemma boundParent_set_cong:
  assumes "[] \<notin> set ps" and "set qs = set ps"
  shows "boundParent qs x = boundParent ps x"
proof (cases "boundParent ps x")
  case None
  show ?thesis
  proof (cases "boundParent qs x")
    case None
    with \<open>boundParent ps x = None\<close> show ?thesis by simp
  next
    case (Some b)
    have "[] \<notin> set qs" using assms by simp
    from boundParent_iff [OF this, of x b] Some assms(2) boundParent_iff [OF assms(1), of x b]
    have "boundParent ps x = Some b" by simp
    with None show ?thesis by simp
  qed
next
  case (Some b)
  have "[] \<notin> set qs" using assms by simp
  from boundParent_iff [OF this, of x b] Some assms(2) boundParent_iff [OF assms(1), of x b]
  have "boundParent qs x = Some b" by simp
  with Some show ?thesis by simp
qed

lemma smartSortRegular_idem:
  assumes "consistent cmp" and "[] \<notin> set items"
  shows "smartSortRegular cmp (smartSortRegular cmp items) = smartSortRegular cmp items"
proof -
  let ?out = "smartSortRegular cmp items"
  have ne: "[] \<notin> set (newSet items)" using assms(2) by simp
  have bp: "boundParent (newSet ?out) x = boundParent (newSet items) x" for x
    by (rule boundParent_set_cong [OF ne]) simp
  have rel: "relationships (groupItems ?out) = relationships (groupItems items)"
    by (rule ext) (simp add: relationships_groupItems bp)
  have par: "parents (groupItems ?out) = parents (groupItems items)"
    by (simp add: parents_groupItems bp)
  have "smartSortRegular cmp ?out =
        arrange cmp (parents (groupItems items)) (relationships (groupItems items)) ?out"
    by (simp only: smartSortRegular_arrange [of cmp ?out] rel par)
  also have "\<dots> = arrange cmp (parents (groupItems items)) (relationships (groupItems items))
        (arrange cmp (parents (groupItems items)) (relationships (groupItems items)) items)"
    by (simp only: smartSortRegular_arrange [of cmp items])
  also have "\<dots> = arrange cmp (parents (groupItems items)) (relationships (groupItems items)) items"
  proof (rule arrange_idem [OF assms(1) parents_groupItems_subset])
    show "\<forall>x\<in>set items. \<forall>p. relationships (groupItems items) x = Some p \<longrightarrow>
            p \<in> parents (groupItems items)"
      using parents_groupItems_rel [of _ items] by blast
  qed
  finally show ?thesis by (simp only: smartSortRegular_arrange [of cmp items])
qed

section \<open>The sections of the output\<close>


lemma sectionsLoop_content:
  "\<forall>x\<in>set t. \<not> isSequenceBreaker x \<Longrightarrow>
     sectionsLoop (t @ rest) cur = sectionsLoop rest (cur @ t)"
  by (induction t arbitrary: cur) simp_all

lemma sectionsLoop_headed_concat:
  "\<forall>s\<in>set hs. headed s \<Longrightarrow>
     sectionsLoop (concat hs) cur = (if length cur > 0 then [cur] else []) @ hs"
proof (induction hs arbitrary: cur)
  case Nil
  show ?case by simp
next
  case (Cons s hs)
  then have "headed s" by simp
  then obtain h t where s: "s = h # t" and h: "isSequenceBreaker h"
    and t: "\<forall>x\<in>set t. \<not> isSequenceBreaker x"
    by (cases s) (auto simp: headed_def)
  have "sectionsLoop (concat (s # hs)) cur =
          (if length cur > 0 then [cur] else []) @ sectionsLoop (t @ concat hs) [h]"
    using s h by simp
  also have "sectionsLoop (t @ concat hs) [h] = sectionsLoop (concat hs) ([h] @ t)"
    using t by (rule sectionsLoop_content)
  also have "\<dots> = [h # t] @ hs"
    using Cons.IH [of "[h] @ t"] Cons.prems by simp
  finally show ?case using s by simp
qed

lemma sections_concat:
  assumes "flushed ss"
  shows "sections (concat ss) = ss"
proof (cases ss)
  case Nil
  then show ?thesis by (simp add: sections_def)
next
  case (Cons s hs)
  with assms have ne: "s \<noteq> []" and tl: "\<forall>x\<in>set (tl s). \<not> isSequenceBreaker x"
    and hs: "\<forall>h\<in>set hs. headed h"
    by (simp_all add: flushed_def)
  show ?thesis
  proof (cases "isSequenceBreaker (hd s)")
    case True
    with ne tl hs Cons have "\<forall>h\<in>set ss. headed h" by (simp add: headed_def)
    from sectionsLoop_headed_concat [OF this, of "[]"] show ?thesis by (simp add: sections_def)
  next
    case False
    with ne tl have free: "\<forall>x\<in>set s. \<not> isSequenceBreaker x" by (cases s) auto
    have "sections (concat ss) = sectionsLoop (s @ concat hs) []"
      using Cons by (simp add: sections_def)
    also have "\<dots> = sectionsLoop (concat hs) ([] @ s)"
      using free by (rule sectionsLoop_content)
    also have "\<dots> = [s] @ hs"
      using sectionsLoop_headed_concat [OF hs, of s] ne by simp
    finally show ?thesis using Cons by simp
  qed
qed

lemma sectionsLoop_headed:
  "isSequenceBreaker h \<Longrightarrow> \<forall>x\<in>set t. \<not> isSequenceBreaker x \<Longrightarrow>
     s \<in> set (sectionsLoop names (h # t)) \<Longrightarrow> headed s"
proof (induction names arbitrary: h t)
  case Nil
  then show ?case by (simp add: headed_def)
next
  case (Cons name names)
  show ?case
  proof (cases "isSequenceBreaker name")
    case True
    with Cons.prems(3) consider "s = h # t" | "s \<in> set (sectionsLoop names [name])" by auto
    then show ?thesis
    proof cases
      case 1
      with Cons.prems(1,2) show ?thesis by (simp add: headed_def)
    next
      case 2
      from Cons.IH [OF True _ 2] show ?thesis by simp
    qed
  next
    case False
    with Cons.prems(3) have "s \<in> set (sectionsLoop names (h # (t @ [name])))" by simp
    moreover have "\<forall>x\<in>set (t @ [name]). \<not> isSequenceBreaker x"
      using Cons.prems(2) False by simp
    ultimately show ?thesis using Cons.IH [OF Cons.prems(1)] by blast
  qed
qed

lemma flushed_sectionsLoop:
  "\<forall>x\<in>set (tl cur). \<not> isSequenceBreaker x \<Longrightarrow> flushed (sectionsLoop names cur)"
proof (induction names arbitrary: cur)
  case Nil
  then show ?case by (simp add: flushed_def)
next
  case (Cons name names)
  show ?case
  proof (cases "isSequenceBreaker name")
    case True
    have hs: "\<forall>s\<in>set (sectionsLoop names [name]). headed s"
      using sectionsLoop_headed [OF True, of "[]" _ names] by simp
    show ?thesis
    proof (cases "cur = []")
      case e: True
      have "flushed (sectionsLoop names [name])" by (rule Cons.IH) simp
      with True e show ?thesis by simp
    next
      case False
      with True Cons.prems hs show ?thesis by (simp add: flushed_def)
    qed
  next
    case False
    have "\<forall>x\<in>set (tl (cur @ [name])). \<not> isSequenceBreaker x"
      using Cons.prems False by (cases cur) auto
    from Cons.IH [OF this] False show ?thesis by simp
  qed
qed

lemma flushed_sections: "flushed (sections names)"
  unfolding sections_def by (rule flushed_sectionsLoop) simp

lemma hd_sortSection_sticky:
  assumes "s \<noteq> []" and "isStickyHeader (hd s)"
  shows "hd (sortSection cmp s) = hd s"
  using assms by (cases s) (simp_all add: sortSection_def Let_def)

lemma sortSection_Nil_iff: "sortSection cmp s = [] \<longleftrightarrow> s = []"
  by (metis set_sortSection set_empty)

lemma tail_sortSection:
  assumes "s \<noteq> []" and tl: "\<forall>x\<in>set (tl s). \<not> isSequenceBreaker x"
    and hd: "isSequenceBreaker (hd s) \<longrightarrow> hd (sortSection cmp s) = hd s"
  shows "\<forall>x\<in>set (tl (sortSection cmp s)). \<not> isSequenceBreaker x"
proof (cases "isSequenceBreaker (hd s)")
  case True
  from assms(1) have ne: "sortSection cmp s \<noteq> []" by (simp add: sortSection_Nil_iff)
  with True hd have out: "sortSection cmp s = hd s # tl (sortSection cmp s)"
    by (metis list.collapse)
  have "filter isSequenceBreaker (sortSection cmp s) = filter isSequenceBreaker s"
    using tl by (rule filter_breaker_sortSection)
  also have "\<dots> = [hd s]"
    using assms(1) tl True by (cases s) (simp_all add: filter_empty_conv)
  finally have "filter isSequenceBreaker (hd s # tl (sortSection cmp s)) = [hd s]"
    using out by simp
  with True have "filter isSequenceBreaker (tl (sortSection cmp s)) = []" by simp
  then show ?thesis by (simp add: filter_empty_conv)
next
  case False
  with assms(1) tl have "\<forall>x\<in>set s. \<not> isSequenceBreaker x" by (cases s) auto
  then have "\<forall>x\<in>set (sortSection cmp s). \<not> isSequenceBreaker x" by simp
  then show ?thesis by (metis list.set_sel(2) tl_Nil)
qed

lemma headed_sortSection:
  assumes "headed s" and "hd (sortSection cmp s) = hd s"
  shows "headed (sortSection cmp s)"
  using assms tail_sortSection [of s cmp]
  by (simp add: headed_def sortSection_Nil_iff)

lemma flushed_map_sortSection:
  assumes "flushed ss"
    and "\<forall>s\<in>set ss. isSequenceBreaker (hd s) \<longrightarrow> hd (sortSection cmp s) = hd s"
  shows "flushed (map (sortSection cmp) ss)"
proof (cases ss)
  case Nil
  then show ?thesis by (simp add: flushed_def)
next
  case (Cons s hs)
  with assms(1) have ne: "s \<noteq> []" and tl: "\<forall>x\<in>set (tl s). \<not> isSequenceBreaker x"
    and hs: "\<forall>h\<in>set hs. headed h"
    by (simp_all add: flushed_def)
  from assms(2) Cons have hd: "isSequenceBreaker (hd s) \<longrightarrow> hd (sortSection cmp s) = hd s"
    by simp
  have "sortSection cmp s \<noteq> []" using ne by (simp add: sortSection_Nil_iff)
  moreover have "\<forall>x\<in>set (tl (sortSection cmp s)). \<not> isSequenceBreaker x"
    using ne tl hd by (rule tail_sortSection)
  moreover have "\<forall>h\<in>set hs. headed (sortSection cmp h)"
  proof
    fix h assume h: "h \<in> set hs"
    with hs have "headed h" by simp
    moreover from this h assms(2) Cons have "hd (sortSection cmp h) = hd h"
      by (simp add: headed_def)
    ultimately show "headed (sortSection cmp h)" by (rule headed_sortSection)
  qed
  ultimately show ?thesis using Cons by (simp add: flushed_def)
qed

section \<open>Sorting the output again\<close>

lemma sortSection_idem:
  assumes "consistent cmp" and "[] \<notin> set s"
  shows "sortSection cmp (sortSection cmp s) = sortSection cmp s"
proof -
  let ?S = "filter isStickyHeader s"
  let ?X = "smartSortRegular cmp (regularItems s)"
  have x: "\<forall>x\<in>set ?X. \<not> isStickyHeader x" by (simp add: regularItems_def)
  then have "filter isStickyHeader ?X = []" by (simp add: filter_empty_conv)
  then have st: "filter isStickyHeader (?S @ ?X) = ?S" by simp
  have "filter (\<lambda>x. \<not> isStickyHeader x) ?X = ?X" using x by (simp add: filter_id_conv)
  then have rg: "regularItems (?S @ ?X) = ?X" by (simp add: regularItems_def)
  have "[] \<notin> set (regularItems s)" using assms(2) by (simp add: regularItems_def)
  from smartSortRegular_idem [OF assms(1) this]
  have "smartSortRegular cmp ?X = ?X" .
  then have "sortSection cmp (?S @ ?X) = ?S @ ?X"
    unfolding sortSection_def Let_def st rg by simp
  then show ?thesis by (simp add: sortSection_def Let_def)
qed

text \<open>
  Where no label is empty and every divider that starts a section is still its first
  element once the section is sorted, a second run changes nothing.
\<close>

lemma sortPagesSmartly_idem:
  assumes "consistent cmp" and "[] \<notin> set names"
    and "\<forall>s\<in>set (sections names). isDivider (hd s) \<longrightarrow> hd (sortSection cmp s) = hd s"
  shows "sortPagesSmartly cmp (sortPagesSmartly cmp names) = sortPagesSmartly cmp names"
proof -
  let ?ss = "sections names"
  have hd: "\<forall>s\<in>set ?ss. isSequenceBreaker (hd s) \<longrightarrow> hd (sortSection cmp s) = hd s"
  proof (intro ballI impI)
    fix s assume s: "s \<in> set ?ss" and b: "isSequenceBreaker (hd s)"
    show "hd (sortSection cmp s) = hd s"
    proof (cases "isStickyHeader (hd s)")
      case True
      with sections_nonempty [OF s] show ?thesis by (rule hd_sortSection_sticky)
    next
      case False
      with b have "isDivider (hd s)" by (simp add: isSequenceBreaker_def)
      with assms(3) s show ?thesis by simp
    qed
  qed
  have fl: "flushed (map (sortSection cmp) ?ss)"
    using flushed_sections hd by (rule flushed_map_sortSection)
  have ne: "[] \<notin> set s" if "s \<in> set ?ss" for s
  proof -
    have "set s \<subseteq> set (concat ?ss)" using that by auto
    with assms(2) show ?thesis by (auto simp only: concat_sections)
  qed
  have "sortPagesSmartly cmp (sortPagesSmartly cmp names) =
          concat (map (sortSection cmp) (sections (concat (map (sortSection cmp) ?ss))))"
    by (simp only: sortPagesSmartly_sections)
  also have "\<dots> = concat (map (sortSection cmp) (map (sortSection cmp) ?ss))"
    by (simp only: sections_concat [OF fl])
  also have "\<dots> = concat (map (sortSection cmp) ?ss)"
  proof -
    have "map (sortSection cmp) (map (sortSection cmp) ?ss) = map (sortSection cmp) ?ss"
      unfolding map_map comp_def
      by (rule map_cong [OF refl]) (simp add: sortSection_idem [OF assms(1)] ne)
    then show ?thesis by (simp only:)
  qed
  finally show ?thesis by (simp only: sortPagesSmartly_sections)
qed

text \<open>
  Claim C8 says that sorting the output again never changes it. Sorted by code units,
  \<open>["b", "---", ""]\<close> becomes \<open>["b", "", "---"]\<close>: the empty label is put before the
  divider of its section. In the second run the empty label stands before the divider,
  so it belongs to the first section, and the result is \<open>["", "b", "---"]\<close>.
  Without any divider, \<open>["b ", "", "a b "]\<close> becomes \<open>["", "a b ", "b "]\<close> and then
  \<open>["", "b ", "a b "]\<close>: \<open>"a b "\<close> ends with a space and so with a space and the empty
  label, which \<open>!bestParent\<close> takes for no parent at all, and whether \<open>"b "\<close> is kept as the
  parent depends on which of the two the loop meets first.
\<close>

theorem C8_second_run_differs:
  "sortPagesSmartly codeUnitCompare [js ''b'', js ''---'', []] = [js ''b'', [], js ''---'']
   \<and> sortPagesSmartly codeUnitCompare (sortPagesSmartly codeUnitCompare [js ''b'', js ''---'', []])
       = [[], js ''b'', js ''---'']
   \<and> sortPagesSmartly codeUnitCompare (sortPagesSmartly codeUnitCompare [js ''b'', js ''---'', []])
       \<noteq> sortPagesSmartly codeUnitCompare [js ''b'', js ''---'', []]
   \<and> sortPagesSmartly codeUnitCompare [js ''b '', [], js ''a b ''] = [[], js ''a b '', js ''b '']
   \<and> sortPagesSmartly codeUnitCompare (sortPagesSmartly codeUnitCompare [js ''b '', [], js ''a b ''])
       = [[], js ''b '', js ''a b '']"
proof -
  have a: "sortPagesSmartly codeUnitCompare [js ''b'', js ''---'', []] = [js ''b'', [], js ''---'']"
    by (simp add: model_defs)
  have b: "sortPagesSmartly codeUnitCompare [js ''b'', [], js ''---''] = [[], js ''b'', js ''---'']"
    by (simp add: model_defs)
  have c: "[[], js ''b'', js ''---''] \<noteq> [js ''b'', [], js ''---'']"
    by (simp add: js_def)
  have d: "sortPagesSmartly codeUnitCompare [js ''b '', [], js ''a b ''] = [[], js ''a b '', js ''b '']"
    by (simp add: model_defs)
  have e: "sortPagesSmartly codeUnitCompare [[], js ''a b '', js ''b ''] = [[], js ''b '', js ''a b '']"
    by (simp add: model_defs)
  show ?thesis unfolding a b d e using c by simp
qed

end
